theory Spec2Isabelle
  imports Main
begin

section \<open>Data model of \<open>torch/_lazy_scheduler/lazy_scheduler.py\<close>\<close>

text \<open>
  Tensor payloads are opaque to the scheduler; they are integers here and
  \<open>torch.zeros([])\<close> is \<open>0\<close>. A fake tensor is a descriptor. A handle is an object on a
  heap and is referred to by its position there.
\<close>

type_synonym tensor = int
type_synonym fake = nat
type_synonym hid = nat

definition zeros :: tensor where
  "zeros = 0"

text \<open>
  An argument of a handle is \<open>None\<close>, a concrete tensor, or an \<open>AsyncTensor\<close>. The only
  place that constructs an \<open>AsyncTensor\<close> is \<open>AsyncFuncHandle.__init__\<close>, which binds it
  to the new handle, so an \<open>AsyncTensor\<close> is named by its owner and its position in the
  owner's \<open>outs_async\<close>.
\<close>

datatype arg = ArgNone | ArgTensor tensor | ArgAsync hid nat

text \<open>\<open>torch.cuda.Event()\<close> creates the event, \<open>record()\<close> records it.\<close>

datatype event = Created | Recorded

record async_tensor =
  fake_tensor :: fake
  container :: "tensor option"

text \<open>One hypothesized dependency: the delayed segment and \<open>(dep_seg_prev, dep_seg)\<close>.\<close>

type_synonym dependencies = "(string \<times> (string option \<times> string)) list"

datatype error =
    AssertionError
  | NotScheduled
  | ScheduleMismatch "string list" "string list"
  | DebugModeMsg "string list option" "string set" "string set" "string set"
  | TypeError
  | ValueError
  | IndexError
  | AttributeError
  | CallableError
  | ReadBeforeMaterialized
  | InvalidRef

text \<open>
  \<open>NotScheduled\<close>, \<open>ScheduleMismatch\<close> and \<open>DebugModeMsg\<close> are the three
  \<open>RuntimeError\<close>s of the file. \<open>CallableError\<close> is an exception of the wrapped callable.
  \<open>ReadBeforeMaterialized\<close> is the failure of line 152 and 153 of \<open>schedule\<close> on an
  \<open>AsyncTensor\<close> that holds no value. \<open>InvalidRef\<close> is a reference to no object, which
  Python cannot build. \<open>Blocked\<close> is a wait that nothing can end.
\<close>

datatype 'a outcome = Returned 'a | Raised error | Blocked

record handle =
  cuda_event :: "event option"
  fn :: "tensor list \<Rightarrow> tensor option list option"
  args :: "arg list"
  outs_fake :: "fake option list"
  outs_async :: "async_tensor list"
  outs :: "tensor option list option"
  segment_name :: string
  args_materialized :: "tensor list option"

record gm =
  gm_id :: nat
  graph_str :: string

text \<open>
  The scheduler, the handles it owns and the trace \<open>fn_calls\<close> of the calls of wrapped
  callables (which handle, on which values), the effect of \<open>self.fn(...)\<close>.
\<close>

record state =
  schedule_order :: "string list"
  gm_to_handle_map :: "nat \<rightharpoonup> hid"
  segment_to_gms_map :: "string \<rightharpoonup> gm list"
  recorded_execution_order :: "string list"
  recorded_delayed :: "string set"
  has_inplace_op_segment_prefixes :: "string set"
  access_mod_attr_or_glb_var_segment_prefixes :: "string set"
  heap :: "handle list"
  fn_calls :: "(hid \<times> tensor list) list"

section \<open>Execution recorder\<close>

definition record_execution :: "state \<Rightarrow> string \<Rightarrow> state" where
  "record_execution st name =
     (if length (recorded_execution_order st) > 0 \<and> last (recorded_execution_order st) = name
      then st
      else st\<lparr>recorded_execution_order := recorded_execution_order st @ [name]\<rparr>)"

definition startswith :: "string \<Rightarrow> string \<Rightarrow> bool" where
  "startswith s p = (take (length p) s = p)"

definition get_recorded_execution_order :: "state \<Rightarrow> string list" where
  "get_recorded_execution_order st =
     filter (\<lambda>s. \<not> startswith s ''__unnamed_'' \<and> \<not> startswith s ''__unregistered_'')
       (recorded_execution_order st)"

fun no_adjacent_duplicates :: "'a list \<Rightarrow> bool" where
  "no_adjacent_duplicates [] = True"
| "no_adjacent_duplicates [x] = True"
| "no_adjacent_duplicates (x # y # zs) = (x \<noteq> y \<and> no_adjacent_duplicates (y # zs))"

section \<open>Diagnostics\<close>

text \<open>\<open>list.index\<close> and \<open>list.remove\<close>: the first occurrence, \<open>ValueError\<close> when absent.\<close>

definition py_index :: "'a list \<Rightarrow> 'a \<Rightarrow> nat option" where
  "py_index xs x = (if x \<in> set xs then Some (length (takeWhile (\<lambda>y. y \<noteq> x) xs)) else None)"

definition py_remove :: "'a list \<Rightarrow> 'a \<Rightarrow> 'a list option" where
  "py_remove xs x = (if x \<in> set xs then Some (remove1 x xs) else None)"

text \<open>\<open>dependencies[seg] = v\<close> on an insertion-ordered dict.\<close>

fun dict_set :: "('k \<times> 'v) list \<Rightarrow> 'k \<Rightarrow> 'v \<Rightarrow> ('k \<times> 'v) list" where
  "dict_set [] k v = [(k, v)]"
| "dict_set ((k', v') # kvs) k v =
     (if k' = k then (k, v) # kvs else (k', v') # dict_set kvs k v)"

text \<open>
  The body of the \<open>while\<close> loop of \<open>find_delayed_seg_dependencies_best_effort\<close>: the
  \<open>for\<close> loop over \<open>reversed(list(enumerate(schedule)))\<close>. \<open>Inr None\<close> is the loop
  ending without \<open>break\<close>, \<open>Inr (Some s)\<close> the state at the \<open>break\<close>.
\<close>

fun scan_from_end ::
  "(nat \<times> string) list \<Rightarrow> string list \<Rightarrow> string list \<Rightarrow> dependencies \<Rightarrow>
   error + (string list \<times> string list \<times> dependencies) option" where
  "scan_from_end [] schedule recorded deps = Inr None"
| "scan_from_end ((index, seg) # rest) schedule recorded deps =
     (case py_index recorded seg of
        None \<Rightarrow> Inl ValueError
      | Some i \<Rightarrow>
          if i < index then
            (if i + 1 < length recorded then
               (let dep_seg = recorded ! (i + 1);
                    dep_seg_prev = (if 1 \<le> i then Some (recorded ! (i - 1)) else None);
                    deps' = dict_set deps seg (dep_seg_prev, dep_seg)
                in case py_remove schedule seg of
                     None \<Rightarrow> Inl ValueError
                   | Some s1 \<Rightarrow>
                       (case py_remove s1 dep_seg of
                          None \<Rightarrow> Inl ValueError
                        | Some s2 \<Rightarrow>
                            (case py_remove recorded seg of
                               None \<Rightarrow> Inl ValueError
                             | Some r1 \<Rightarrow>
                                 (case py_remove r1 dep_seg of
                                    None \<Rightarrow> Inl ValueError
                                  | Some r2 \<Rightarrow> Inr (Some (s2, r2, deps'))))))
             else Inl IndexError)
          else scan_from_end rest schedule recorded deps)"

text \<open>The \<open>while schedule != recorded_execution_order\<close> loop; \<open>None\<close> is no return.\<close>

partial_function (option) scan_loop ::
  "string list \<times> string list \<times> dependencies \<Rightarrow> (error + dependencies) option" where
  "scan_loop s =
     (case s of (schedule, recorded, deps) \<Rightarrow>
        if schedule = recorded then Some (Inr deps)
        else (case scan_from_end (rev (enumerate 0 schedule)) schedule recorded deps of
                Inl e \<Rightarrow> Some (Inl e)
              | Inr None \<Rightarrow> scan_loop (schedule, recorded, deps)
              | Inr (Some s') \<Rightarrow> scan_loop s'))"

declare scan_loop.simps [code]

text \<open>
  One line of the returned message per entry of \<open>dependencies\<close>; the lines are kept as
  a list, where the source joins them with newlines.
\<close>

definition dep_msg :: "string \<times> (string option \<times> string) \<Rightarrow> string" where
  "dep_msg d =
     (case d of (delayed_seg, (dep_seg_prev, dep_seg)) \<Rightarrow>
        ''- The code starting from end of `'' @
        (case dep_seg_prev of None \<Rightarrow> delayed_seg | Some p \<Rightarrow> p) @
        ''` (exclusive) to end of `'' @ dep_seg @
        ''` (inclusive) depends on output of `'' @ delayed_seg @ ''`'')"

definition find_delayed_seg_dependencies_best_effort ::
  "string list \<Rightarrow> string list \<Rightarrow> (error + string list) option" where
  "find_delayed_seg_dependencies_best_effort schedule_orig recorded_execution_order_orig =
     (if length schedule_orig \<noteq> length recorded_execution_order_orig
      then Some (Inl AssertionError)
      else (case scan_loop (schedule_orig, recorded_execution_order_orig, []) of
              None \<Rightarrow> None
            | Some (Inl e) \<Rightarrow> Some (Inl e)
            | Some (Inr deps) \<Rightarrow> Some (Inr (map dep_msg deps))))"

text \<open>
  \<open>debug\<close> has no \<open>return\<close>: the result is the exception it raises, \<open>None\<close> when the
  reverse scan does not return. The report keeps the segment lists and sets that the
  message is formatted from.
\<close>

definition debug :: "state \<Rightarrow> error option" where
  "debug st =
     (if length (schedule_order st) \<noteq> length (get_recorded_execution_order st)
         \<or> set (schedule_order st) \<noteq> set (get_recorded_execution_order st)
      then Some (ScheduleMismatch (schedule_order st) (get_recorded_execution_order st))
      else if schedule_order st \<noteq> get_recorded_execution_order st
      then (case find_delayed_seg_dependencies_best_effort
                   (schedule_order st) (get_recorded_execution_order st) of
              None \<Rightarrow> None
            | Some (Inl e) \<Rightarrow> Some e
            | Some (Inr msgs) \<Rightarrow>
                Some (DebugModeMsg (Some msgs) (recorded_delayed st)
                        (has_inplace_op_segment_prefixes st)
                        (access_mod_attr_or_glb_var_segment_prefixes st)))
      else Some (DebugModeMsg None (recorded_delayed st)
                   (has_inplace_op_segment_prefixes st)
                   (access_mod_attr_or_glb_var_segment_prefixes st)))"

section \<open>AsyncTensor\<close>

text \<open>
  Modelled from the spec: class \<open>AsyncTensor\<close> (\<open>torch/_subclasses/async_tensor.py\<close>) is
  not among the sources. A placeholder holds descriptive metadata only until it is
  materialized; materialization stores the concrete value; reading it gives that value.
\<close>

text \<open>
  The constructor call of \<open>AsyncFuncHandle.__init__\<close>: the fake tensor, or that of
  \<open>torch.zeros([])\<close> when it is \<open>None\<close>, and an empty \<open>TensorContainer\<close>.
\<close>

definition new_async_tensor :: "fake option \<Rightarrow> async_tensor" where
  "new_async_tensor out_fake =
     \<lparr>fake_tensor = (case out_fake of Some f \<Rightarrow> f | None \<Rightarrow> 0), container = None\<rparr>"

text \<open>
  Modelled from the spec: \<open>AsyncTensor.materialize_with_value\<close> is not among the sources.
  After materialization the placeholder holds the concrete value.
\<close>

definition materialize_with_value :: "async_tensor \<Rightarrow> tensor \<Rightarrow> async_tensor" where
  "materialize_with_value t v = t\<lparr>container := Some v\<rparr>"

definition lookup_async :: "state \<Rightarrow> hid \<Rightarrow> nat \<Rightarrow> async_tensor option" where
  "lookup_async st h i =
     (if h < length (heap st) \<and> i < length (outs_async (heap st ! h))
      then Some (outs_async (heap st ! h) ! i) else None)"

definition is_materialized :: "state \<Rightarrow> hid \<Rightarrow> nat \<Rightarrow> bool" where
  "is_materialized st h i =
     (case lookup_async st h i of None \<Rightarrow> False | Some t \<Rightarrow> container t \<noteq> None)"

text \<open>
  Modelled from the spec: \<open>AsyncTensor.get_materialized_tensor\<close> is not among the sources.
  It gives the concrete value of a materialized placeholder; the specification gives a
  placeholder that is not materialized no value, and reading one is the failure
  \<open>ReadBeforeMaterialized\<close>.
\<close>

definition get_materialized_tensor :: "state \<Rightarrow> hid \<Rightarrow> nat \<Rightarrow> error + tensor" where
  "get_materialized_tensor st h i =
     (case lookup_async st h i of
        None \<Rightarrow> Inl InvalidRef
      | Some t \<Rightarrow> (case container t of None \<Rightarrow> Inl ReadBeforeMaterialized | Some v \<Rightarrow> Inr v))"

section \<open>AsyncFuncHandle\<close>

definition AsyncFuncHandle_init ::
  "(tensor list \<Rightarrow> tensor option list option) \<Rightarrow> string \<Rightarrow> arg list \<Rightarrow> fake option list \<Rightarrow>
   error + handle" where
  "AsyncFuncHandle_init f name as fakes =
     (if ArgNone \<in> set as then Inl AssertionError
      else Inr \<lparr>cuda_event = None, fn = f, args = as, outs_fake = fakes,
                outs_async = map new_async_tensor fakes, outs = None,
                segment_name = name, args_materialized = None\<rparr>)"

definition is_scheduled :: "state \<Rightarrow> hid \<Rightarrow> bool" where
  "is_scheduled st h = (h < length (heap st) \<and> cuda_event (heap st ! h) \<noteq> None)"

definition update_handle :: "state \<Rightarrow> hid \<Rightarrow> (handle \<Rightarrow> handle) \<Rightarrow> state" where
  "update_handle st h f = st\<lparr>heap := (heap st)[h := f (heap st ! h)]\<rparr>"

text \<open>The loop of \<open>wait_for_completion\<close> over \<open>zip(self.outs, self.outs_async)\<close>.\<close>

fun materialize_outs :: "tensor option list \<Rightarrow> async_tensor list \<Rightarrow> async_tensor list" where
  "materialize_outs (out # os) (out_async # ts) =
     materialize_with_value out_async (case out of Some v \<Rightarrow> v | None \<Rightarrow> zeros)
       # materialize_outs os ts"
| "materialize_outs [] ts = ts"
| "materialize_outs os [] = []"

text \<open>
  \<open>synchronize()\<close> returns once the event's work is done. When \<open>self.outs\<close> is still
  \<open>None\<close>, \<open>zip\<close> raises \<open>TypeError\<close>.
\<close>

definition wait_for_completion :: "state \<Rightarrow> hid \<Rightarrow> unit outcome \<times> state" where
  "wait_for_completion st h =
     (if \<not> h < length (heap st) then (Raised InvalidRef, st)
      else (case cuda_event (heap st ! h) of
              None \<Rightarrow> (Raised NotScheduled, st)
            | Some ev \<Rightarrow>
                (case outs (heap st ! h) of
                   None \<Rightarrow> (Raised TypeError, st)
                 | Some os \<Rightarrow>
                     (Returned (),
                      update_handle st h
                        (\<lambda>H. H\<lparr>outs_async := materialize_outs os (outs_async H)\<rparr>)))))"

text \<open>
  Modelled from the spec: \<open>AsyncTensor.wait_until_materialized\<close> is not among the
  sources. It blocks until every placeholder among the arguments is materialized,
  triggering the owning handle's \<open>schedule()\<close> if it is not already scheduled; the owner
  writes its results into its placeholders in \<open>wait_for_completion\<close>. A placeholder
  that its owner's completion leaves without a value is waited for without end.
  \<open>sch\<close> is \<open>schedule\<close>.
\<close>

fun wait_until_materialized ::
  "(state \<Rightarrow> hid \<Rightarrow> (unit outcome \<times> state) option) \<Rightarrow> state \<Rightarrow> arg list \<Rightarrow>
   (unit outcome \<times> state) option" where
  "wait_until_materialized sch st [] = Some (Returned (), st)"
| "wait_until_materialized sch st (ArgAsync h i # as) =
     (if is_materialized st h i then wait_until_materialized sch st as
      else (case (if is_scheduled st h then Some (Returned (), st) else sch st h) of
              None \<Rightarrow> None
            | Some (Returned u, st1) \<Rightarrow>
                (case wait_for_completion st1 h of
                   (Returned u', st2) \<Rightarrow>
                     if is_materialized st2 h i then wait_until_materialized sch st2 as
                     else Some (Blocked, st2)
                 | (Raised e, st2) \<Rightarrow> Some (Raised e, st2)
                 | (Blocked, st2) \<Rightarrow> Some (Blocked, st2))
            | Some (Raised e, st1) \<Rightarrow> Some (Raised e, st1)
            | Some (Blocked, st1) \<Rightarrow> Some (Blocked, st1)))"
| "wait_until_materialized sch st (ArgTensor v # as) = wait_until_materialized sch st as"
| "wait_until_materialized sch st (ArgNone # as) = wait_until_materialized sch st as"

text \<open>
  Lines 152 and 153 of \<open>schedule\<close>: every \<open>AsyncTensor\<close> is replaced by its value, then
  every argument is detached.
\<close>

definition read_arg :: "state \<Rightarrow> arg \<Rightarrow> error + tensor" where
  "read_arg st a =
     (case a of
        ArgNone \<Rightarrow> Inl AttributeError
      | ArgTensor v \<Rightarrow> Inr v
      | ArgAsync h i \<Rightarrow> get_materialized_tensor st h i)"

fun read_args :: "state \<Rightarrow> arg list \<Rightarrow> error + tensor list" where
  "read_args st [] = Inr []"
| "read_args st (a # as) =
     (case read_arg st a of
        Inl e \<Rightarrow> Inl e
      | Inr v \<Rightarrow> (case read_args st as of Inl e \<Rightarrow> Inl e | Inr vs \<Rightarrow> Inr (v # vs)))"

text \<open>Lines 152 to 163 of \<open>schedule\<close>, from reading the arguments to \<open>record()\<close>.\<close>

definition run_callable :: "state \<Rightarrow> hid \<Rightarrow> unit outcome \<times> state" where
  "run_callable st h =
     (case read_args st (args (heap st ! h)) of
        Inl e \<Rightarrow> (Raised e, st)
      | Inr vs \<Rightarrow>
          (let st1 = update_handle st h (\<lambda>H. H\<lparr>args_materialized := Some vs\<rparr>);
               st2 = record_execution st1 (segment_name (heap st1 ! h));
               st3 = st2\<lparr>fn_calls := fn_calls st2 @ [(h, vs)]\<rparr>
           in case fn (heap st3 ! h) vs of
                None \<Rightarrow> (Raised CallableError, st3)
              | Some os \<Rightarrow>
                  (Returned (),
                   update_handle st3 h (\<lambda>H. H\<lparr>outs := Some os, cuda_event := Some Recorded\<rparr>))))"

text \<open>
  \<open>schedule\<close> calls itself through \<open>wait_until_materialized\<close>; the first argument bounds
  the depth of these calls, and \<open>None\<close> is the bound reached.
\<close>

primrec schedule_fuel :: "nat \<Rightarrow> state \<Rightarrow> hid \<Rightarrow> (unit outcome \<times> state) option" where
  "schedule_fuel 0 st h = None"
| "schedule_fuel (Suc n) st h =
     (if \<not> h < length (heap st) then Some (Raised InvalidRef, st)
      else if cuda_event (heap st ! h) \<noteq> None then Some (Returned (), st)
      else (let st1 = update_handle st h (\<lambda>H. H\<lparr>cuda_event := Some Created\<rparr>)
            in if ArgNone \<in> set (args (heap st1 ! h)) then Some (Raised AssertionError, st1)
               else (case wait_until_materialized (schedule_fuel n) st1 (args (heap st1 ! h)) of
                       None \<Rightarrow> None
                     | Some (Returned u, st2) \<Rightarrow> Some (run_callable st2 h)
                     | Some (Raised e, st2) \<Rightarrow> Some (Raised e, st2)
                     | Some (Blocked, st2) \<Rightarrow> Some (Blocked, st2))))"

text \<open>Every nested call marks one more handle, so one unit per handle is enough.\<close>

definition schedule :: "state \<Rightarrow> hid \<Rightarrow> (unit outcome \<times> state) option" where
  "schedule st h = schedule_fuel (Suc (length (heap st))) st h"

section \<open>LazyScheduler.maybe_run\<close>

text \<open>
  The \<open>for g in self._segment_to_gms_map[_segment_name]\<close> loop. The loop state is
  \<open>(all_preceding_graph_handles, all_preceding_graph_handles_are_created,
  reached_current_graph)\<close>; \<open>cur\<close> is \<open>str(gm.graph)\<close>.
\<close>

type_synonym walk_state = "hid list \<times> bool \<times> bool"

fun walk_gms :: "(nat \<rightharpoonup> hid) \<Rightarrow> string \<Rightarrow> gm list \<Rightarrow> walk_state \<Rightarrow> walk_state" where
  "walk_gms hm cur [] w = w"
| "walk_gms hm cur (g # gs) (acc, created, reached) =
     (if graph_str g = cur then (acc, created, True)
      else (case hm (gm_id g) of
              None \<Rightarrow> (acc, False, reached)
            | Some h \<Rightarrow> walk_gms hm cur gs (acc @ [h], created, reached)))"

text \<open>The \<open>while _next_segment_index < len(self._schedule)\<close> loop.\<close>

function walk_schedule :: "state \<Rightarrow> string \<Rightarrow> nat \<Rightarrow> walk_state \<Rightarrow> walk_state" where
  "walk_schedule st cur next_segment_index w =
     (if next_segment_index < length (schedule_order st) then
        (case segment_to_gms_map st (schedule_order st ! next_segment_index) of
           None \<Rightarrow> (fst w, False, snd (snd w))
         | Some gms \<Rightarrow>
             (let w' = walk_gms (gm_to_handle_map st) cur gms w
              in if snd (snd w') \<or> \<not> fst (snd w') then w'
                 else walk_schedule st cur (next_segment_index + 1) w'))
      else w)"
  by pat_completeness auto
termination
  by (relation "measure (\<lambda>(st, cur, i, w). length (schedule_order st) - i)") auto

declare walk_schedule.simps [simp del]

text \<open>Retrieving or creating the handle of \<open>gm\<close>; \<open>fakes\<close> is \<open>gm(*args_fake)\<close>.\<close>

definition get_or_create_handle ::
  "state \<Rightarrow> gm \<Rightarrow> (tensor list \<Rightarrow> tensor option list option) \<Rightarrow> string \<Rightarrow> arg list \<Rightarrow>
   fake option list \<Rightarrow> error + hid \<times> state" where
  "get_or_create_handle st g compiled_fn cur_segment_name as fakes =
     (case gm_to_handle_map st (gm_id g) of
        Some h \<Rightarrow> Inr (h, st)
      | None \<Rightarrow>
          (case AsyncFuncHandle_init compiled_fn cur_segment_name as fakes of
             Inl e \<Rightarrow> Inl e
           | Inr H \<Rightarrow>
               Inr (length (heap st),
                    st\<lparr>heap := heap st @ [H],
                       gm_to_handle_map := (gm_to_handle_map st)(gm_id g \<mapsto> length (heap st))\<rparr>)))"

text \<open>The tuple \<open>cur_handle.outs_async\<close>.\<close>

definition outs_async_of :: "state \<Rightarrow> hid \<Rightarrow> arg list" where
  "outs_async_of st h = map (ArgAsync h) [0..<length (outs_async (heap st ! h))]"

text \<open>The \<open>for handle in all_preceding_graph_handles: handle.schedule()\<close> loop.\<close>

fun schedule_each :: "state \<Rightarrow> hid list \<Rightarrow> (unit outcome \<times> state) option" where
  "schedule_each st [] = Some (Returned (), st)"
| "schedule_each st (h # hs) =
     (case schedule st h of
        None \<Rightarrow> None
      | Some (Returned u, st1) \<Rightarrow> schedule_each st1 hs
      | Some (Raised e, st1) \<Rightarrow> Some (Raised e, st1)
      | Some (Blocked, st1) \<Rightarrow> Some (Blocked, st1))"

definition maybe_run ::
  "state \<Rightarrow> gm \<Rightarrow> (tensor list \<Rightarrow> tensor option list option) \<Rightarrow> string \<Rightarrow> arg list \<Rightarrow>
   fake option list \<Rightarrow> (arg list outcome \<times> state) option" where
  "maybe_run st g compiled_fn cur_segment_name as fakes =
     (if ArgNone \<in> set as then Some (Raised AssertionError, st)
      else (case get_or_create_handle st g compiled_fn cur_segment_name as fakes of
              Inl e \<Rightarrow> Some (Raised e, st)
            | Inr (cur_handle, st1) \<Rightarrow>
                (case walk_schedule st1 (graph_str g) 0 ([], True, False) of
                   (all_preceding_graph_handles, created, reached) \<Rightarrow>
                     if \<not> created then
                       Some (Returned (outs_async_of st1 cur_handle),
                             st1\<lparr>recorded_delayed :=
                                   insert cur_segment_name (recorded_delayed st1)\<rparr>)
                     else (case schedule_each st1 all_preceding_graph_handles of
                             None \<Rightarrow> None
                           | Some (Raised e, st2) \<Rightarrow> Some (Raised e, st2)
                           | Some (Blocked, st2) \<Rightarrow> Some (Blocked, st2)
                           | Some (Returned u, st2) \<Rightarrow>
                               (case schedule st2 cur_handle of
                                  None \<Rightarrow> None
                                | Some (Raised e, st3) \<Rightarrow> Some (Raised e, st3)
                                | Some (Blocked, st3) \<Rightarrow> Some (Blocked, st3)
                                | Some (Returned u', st3) \<Rightarrow>
                                    Some (Returned (outs_async_of st3 cur_handle), st3))))))"

text \<open>\<open>LazyScheduler.__init__\<close>: the maps, the record and the sets start empty.\<close>

definition LazyScheduler_init :: "string list \<Rightarrow> state" where
  "LazyScheduler_init sched =
     \<lparr>schedule_order = sched, gm_to_handle_map = Map.empty, segment_to_gms_map = Map.empty,
      recorded_execution_order = [], recorded_delayed = {},
      has_inplace_op_segment_prefixes = {},
      access_mod_attr_or_glb_var_segment_prefixes = {}, heap = [], fn_calls = []\<rparr>"

text \<open>
  The registration at the end of \<open>_compile_fx_inner_for_graph_in_segment\<close>: the list of
  the segment is created when the name is new, and \<open>gm\<close> is appended to it. Nothing else
  writes \<open>_segment_to_gms_map\<close>.
\<close>

definition register_gm :: "state \<Rightarrow> string \<Rightarrow> gm \<Rightarrow> state" where
  "register_gm st name g =
     st\<lparr>segment_to_gms_map :=
          (segment_to_gms_map st)
            (name \<mapsto> (case segment_to_gms_map st name of None \<Rightarrow> [] | Some gms \<Rightarrow> gms) @ [g])\<rparr>"

section \<open>The admission walk in the words of the specification\<close>

text \<open>
  Section 4.2, step 3 of the specification, on the schedule as a list: a segment without
  registry entries defers; an instance with the fingerprint of the current invocation
  admits, with the handles accumulated so far as preceding; an instance without handle
  defers; any other instance adds its handle. \<open>Exhausted\<close> is the end of the schedule,
  which step 3 leaves open.
\<close>

datatype admission = Admitted "hid list" | Deferred | Exhausted "hid list"

fun admit_instances ::
  "(nat \<rightharpoonup> hid) \<Rightarrow> string \<Rightarrow> gm list \<Rightarrow> hid list \<Rightarrow> admission + hid list" where
  "admit_instances hm cur [] preceding = Inr preceding"
| "admit_instances hm cur (g # gs) preceding =
     (if graph_str g = cur then Inl (Admitted preceding)
      else (case hm (gm_id g) of
              None \<Rightarrow> Inl Deferred
            | Some h \<Rightarrow> admit_instances hm cur gs (preceding @ [h])))"

fun admission_walk ::
  "(string \<rightharpoonup> gm list) \<Rightarrow> (nat \<rightharpoonup> hid) \<Rightarrow> string \<Rightarrow> string list \<Rightarrow> hid list \<Rightarrow> admission" where
  "admission_walk reg hm cur [] preceding = Exhausted preceding"
| "admission_walk reg hm cur (S # rest) preceding =
     (case reg S of
        None \<Rightarrow> Deferred
      | Some gms \<Rightarrow>
          if gms = [] then Deferred
          else (case admit_instances hm cur gms preceding of
                  Inl verdict \<Rightarrow> verdict
                | Inr preceding' \<Rightarrow> admission_walk reg hm cur rest preceding'))"

text \<open>What the three variables of the loops of \<open>maybe_run\<close> are for each verdict.\<close>

fun walk_agrees :: "admission \<Rightarrow> walk_state \<Rightarrow> bool" where
  "walk_agrees (Admitted hs) w = (w = (hs, True, True))"
| "walk_agrees Deferred w = (snd w = (False, False))"
| "walk_agrees (Exhausted hs) w = (w = (hs, True, False))"

text \<open>
  Step 5: \<open>schedule()\<close> on every handle of \<open>hs\<close> in order, an exception or a wait
  without end stopping the sequence, then the placeholder outputs of \<open>cur\<close>.
\<close>

definition run_in_order :: "state \<Rightarrow> hid list \<Rightarrow> hid \<Rightarrow> (arg list outcome \<times> state) option" where
  "run_in_order st hs cur =
     (case schedule_each st hs of
        None \<Rightarrow> None
      | Some (Returned u, st') \<Rightarrow> Some (Returned (outs_async_of st' cur), st')
      | Some (Raised e, st') \<Rightarrow> Some (Raised e, st')
      | Some (Blocked, st') \<Rightarrow> Some (Blocked, st'))"

text \<open>
  Every handle registered under every scheduled segment, in schedule order and, within
  a segment, in registration order.
\<close>

definition handles_of_schedule :: "state \<Rightarrow> hid list" where
  "handles_of_schedule st =
     concat (map (\<lambda>S. case segment_to_gms_map st S of
                        None \<Rightarrow> []
                      | Some gms \<Rightarrow> List.map_filter (\<lambda>g. gm_to_handle_map st (gm_id g)) gms)
               (schedule_order st))"

text \<open>
  A sequence of \<open>schedule()\<close> calls by a caller that goes on after an exception.
\<close>

fun schedule_calls :: "state \<Rightarrow> hid list \<Rightarrow> state option" where
  "schedule_calls st [] = Some st"
| "schedule_calls st (h # hs) =
     (case schedule st h of None \<Rightarrow> None | Some (r, st1) \<Rightarrow> schedule_calls st1 hs)"

section \<open>Predicates of the properties and example states\<close>

text \<open>No segment name is registered with an empty list of instances.\<close>

definition registry_nonempty :: "state \<Rightarrow> bool" where
  "registry_nonempty st = (\<forall>S. segment_to_gms_map st S \<noteq> Some [])"

text \<open>
  What no operation on a handle undoes: the callable, the arguments and the segment name
  stay, a set \<open>cuda_event\<close> stays set, a materialized placeholder stays materialized.
\<close>

definition handle_frame :: "handle \<Rightarrow> handle \<Rightarrow> bool" where
  "handle_frame H H' =
     (args H' = args H \<and> fn H' = fn H \<and> segment_name H' = segment_name H
      \<and> (cuda_event H \<noteq> None \<longrightarrow> cuda_event H' \<noteq> None)
      \<and> list_all2 (\<lambda>t t'. container t \<noteq> None \<longrightarrow> container t' \<noteq> None)
           (outs_async H) (outs_async H'))"

definition frame :: "state \<Rightarrow> state \<Rightarrow> bool" where
  "frame st st' =
     (list_all2 handle_frame (heap st) (heap st')
      \<and> schedule_order st' = schedule_order st
      \<and> gm_to_handle_map st' = gm_to_handle_map st
      \<and> segment_to_gms_map st' = segment_to_gms_map st
      \<and> recorded_delayed st' = recorded_delayed st)"

text \<open>
  A run from \<open>st\<close> to \<open>st'\<close>: the trace grows by calls of distinct handles that were
  not scheduled in \<open>st\<close> and are scheduled in \<open>st'\<close>.
\<close>

definition evolves :: "state \<Rightarrow> state \<Rightarrow> bool" where
  "evolves st st' =
     (frame st st' \<and>
      (\<exists>new. fn_calls st' = fn_calls st @ new \<and> distinct (map fst new)
         \<and> (\<forall>g \<in> fst ` set new. \<not> is_scheduled st g \<and> is_scheduled st' g)))"

definition unscheduled :: "state \<Rightarrow> nat" where
  "unscheduled st = length (filter (\<lambda>H. cuda_event H = None) (heap st))"

text \<open>No callable was called twice, and every handle whose callable was called is scheduled.\<close>

definition exec_once :: "state \<Rightarrow> bool" where
  "exec_once st =
     (distinct (map fst (fn_calls st)) \<and> list_all (is_scheduled st) (map fst (fn_calls st)))"

text \<open>Every placeholder among the arguments holds a value.\<close>

definition all_materialized :: "state \<Rightarrow> arg list \<Rightarrow> bool" where
  "all_materialized st as =
     list_all (\<lambda>a. case a of ArgAsync h i \<Rightarrow> is_materialized st h i | _ \<Rightarrow> True) as"

text \<open>
  A call in the trace is sound when every placeholder among the arguments of its handle
  is materialized and one value was passed for each argument.
\<close>

definition call_sound :: "state \<Rightarrow> hid \<times> tensor list \<Rightarrow> bool" where
  "call_sound st c =
     (fst c < length (heap st) \<and> all_materialized st (args (heap st ! fst c))
      \<and> length (snd c) = length (args (heap st ! fst c)))"

definition inputs_materialized :: "state \<Rightarrow> bool" where
  "inputs_materialized st = list_all (call_sound st) (fn_calls st)"

text \<open>The two reports of \<open>debug\<close>: the mismatch report and the debug mode message.\<close>

definition is_report :: "error \<Rightarrow> bool" where
  "is_report e =
     (case e of ScheduleMismatch s r \<Rightarrow> True | DebugModeMsg d a b c \<Rightarrow> True | _ \<Rightarrow> False)"

text \<open>A run that executed an unnamed segment instead of the scheduled \<open>B_fwd\<close>.\<close>

definition st_mismatch :: state where
  "st_mismatch = (LazyScheduler_init [''A_fwd'', ''B_fwd''])
     \<lparr>recorded_execution_order := [''A_fwd'', ''__unnamed_0_fwd'']\<rparr>"

text \<open>
  A schedule that names \<open>x_fwd\<close> twice, and a run that executed \<open>y_fwd\<close> twice around an
  unnamed segment.
\<close>

definition st_repeated :: state where
  "st_repeated =
     foldl record_execution (LazyScheduler_init [''y_fwd'', ''x_fwd'', ''x_fwd''])
       [''y_fwd'', ''__unnamed_0_fwd'', ''y_fwd'', ''x_fwd'']"

text \<open>A scheduler with one handle, constructed and never scheduled.\<close>

definition st_fresh :: state where
  "st_fresh =
     (case get_or_create_handle (LazyScheduler_init [''B_fwd'', ''A_fwd''])
             \<lparr>gm_id = 0, graph_str = ''graph_A''\<rparr> (\<lambda>vs. Some [Some 1]) ''A_fwd''
             [ArgTensor 5] [Some 0] of
        Inr (h, st) \<Rightarrow> st
      | Inl e \<Rightarrow> LazyScheduler_init [])"

text \<open>
  Three graphs with their callables: \<open>A\<close> needs no other segment, \<open>B\<close> reads the output
  of \<open>A\<close>, \<open>C\<close> reads a concrete tensor. \<open>gm_A_again\<close> is another capture of the graph of
  \<open>A\<close>.
\<close>

definition gm_A :: gm where
  "gm_A = \<lparr>gm_id = 0, graph_str = ''graph_A''\<rparr>"

definition gm_B :: gm where
  "gm_B = \<lparr>gm_id = 1, graph_str = ''graph_B''\<rparr>"

definition gm_C :: gm where
  "gm_C = \<lparr>gm_id = 1, graph_str = ''graph_C''\<rparr>"

definition gm_A_again :: gm where
  "gm_A_again = \<lparr>gm_id = 1, graph_str = ''graph_A''\<rparr>"

definition fn_A :: "tensor list \<Rightarrow> tensor option list option" where
  "fn_A vs = Some [Some 7]"

definition fn_B :: "tensor list \<Rightarrow> tensor option list option" where
  "fn_B vs = Some [Some (sum_list vs + 1)]"

definition handle_A :: handle where
  "handle_A = \<lparr>cuda_event = None, fn = fn_A, args = [ArgTensor 5],
          outs_fake = [Some 0], outs_async = [new_async_tensor (Some 0)], outs = None,
          segment_name = ''A_fwd'', args_materialized = None\<rparr>"

definition handle_B :: handle where
  "handle_B = \<lparr>cuda_event = None, fn = fn_B, args = [ArgAsync 0 0],
          outs_fake = [Some 0], outs_async = [new_async_tensor (Some 0)], outs = None,
          segment_name = ''B_fwd'', args_materialized = None\<rparr>"

definition handle_C :: handle where
  "handle_C = \<lparr>cuda_event = None, fn = fn_B, args = [ArgTensor 1],
          outs_fake = [Some 0], outs_async = [new_async_tensor (Some 0)], outs = None,
          segment_name = ''C_fwd'', args_materialized = None\<rparr>"

text \<open>Schedule \<open>A, B\<close>, both compiled, \<open>A\<close> invoked; then \<open>B\<close> invoked; then \<open>A\<close> scheduled.\<close>

definition st_AB :: state where
  "st_AB = (LazyScheduler_init [''A_fwd'', ''B_fwd''])
     \<lparr>gm_to_handle_map := [0 \<mapsto> 0],
      segment_to_gms_map := [''A_fwd'' \<mapsto> [gm_A], ''B_fwd'' \<mapsto> [gm_B]],
      heap := [handle_A]\<rparr>"

definition st_AB1 :: state where
  "st_AB1 = st_AB\<lparr>heap := [handle_A, handle_B], gm_to_handle_map := [0 \<mapsto> 0, 1 \<mapsto> 1]\<rparr>"

definition st_AB2 :: state where
  "st_AB2 = st_AB1
     \<lparr>heap := [handle_A\<lparr>cuda_event := Some Recorded, outs := Some [Some 7],
                         args_materialized := Some [5]\<rparr>, handle_B],
      recorded_execution_order := [''A_fwd''], fn_calls := [(0, [5])]\<rparr>"

text \<open>Schedule \<open>B, A\<close>, only \<open>A\<close> compiled; then \<open>A\<close> invoked.\<close>

definition st_BA :: state where
  "st_BA = (LazyScheduler_init [''B_fwd'', ''A_fwd''])
     \<lparr>segment_to_gms_map := [''A_fwd'' \<mapsto> [gm_A]]\<rparr>"

definition st_BA1 :: state where
  "st_BA1 = st_BA\<lparr>heap := [handle_A], gm_to_handle_map := [0 \<mapsto> 0]\<rparr>"

text \<open>Schedule \<open>A\<close> alone, \<open>A\<close> invoked; then \<open>C\<close>, which the schedule does not name, invoked.\<close>

definition st_A :: state where
  "st_A = (LazyScheduler_init [''A_fwd''])
     \<lparr>gm_to_handle_map := [0 \<mapsto> 0],
      segment_to_gms_map := [''A_fwd'' \<mapsto> [gm_A]],
      heap := [handle_A]\<rparr>"

definition st_A1 :: state where
  "st_A1 = st_A\<lparr>heap := [handle_A, handle_C], gm_to_handle_map := [0 \<mapsto> 0, 1 \<mapsto> 1]\<rparr>"

lemmas ex_defs = gm_A_def gm_B_def gm_C_def gm_A_again_def fn_A_def fn_B_def
  handle_A_def handle_B_def handle_C_def st_AB_def st_AB1_def st_AB2_def st_BA_def st_BA1_def
  st_A_def st_A1_def LazyScheduler_init_def get_or_create_handle_def AsyncFuncHandle_init_def
  new_async_tensor_def

lemmas run_defs = schedule_def update_handle_def is_materialized_def lookup_async_def
  is_scheduled_def wait_for_completion_def run_callable_def read_arg_def
  get_materialized_tensor_def record_execution_def materialize_with_value_def Let_def
  outs_async_of_def

section \<open>The execution record\<close>

lemma no_adjacent_duplicates_snoc:
  "no_adjacent_duplicates (xs @ [x]) = (no_adjacent_duplicates xs \<and> (xs = [] \<or> last xs \<noteq> x))"
  by (induction xs rule: no_adjacent_duplicates.induct) auto

lemma record_execution_no_adjacent:
  "no_adjacent_duplicates (recorded_execution_order st) \<Longrightarrow>
   no_adjacent_duplicates (recorded_execution_order (record_execution st name))"
  by (auto simp: record_execution_def no_adjacent_duplicates_snoc)

text \<open>
  C9. \<open>record_execution name\<close> appends \<open>name\<close> unless it is the last entry of the record,
  and a record without two equal adjacent entries stays so under any sequence of
  \<open>record_execution\<close> calls. The record of a new scheduler is empty.
\<close>

theorem record_execution_coalesces:
  "recorded_execution_order (record_execution st name) =
     (if recorded_execution_order st \<noteq> [] \<and> last (recorded_execution_order st) = name
      then recorded_execution_order st else recorded_execution_order st @ [name])
   \<and> (no_adjacent_duplicates (recorded_execution_order st) \<longrightarrow>
        no_adjacent_duplicates (recorded_execution_order (foldl record_execution st names)))"
proof
  show "recorded_execution_order (record_execution st name) =
     (if recorded_execution_order st \<noteq> [] \<and> last (recorded_execution_order st) = name
      then recorded_execution_order st else recorded_execution_order st @ [name])"
    by (simp add: record_execution_def)
  show "no_adjacent_duplicates (recorded_execution_order st) \<longrightarrow>
        no_adjacent_duplicates (recorded_execution_order (foldl record_execution st names))"
    by (induction names arbitrary: st) (simp_all add: record_execution_no_adjacent)
qed

theorem record_execution_coalesces_witness:
  "no_adjacent_duplicates (recorded_execution_order (LazyScheduler_init [''A_fwd'']))
   \<and> recorded_execution_order
       (foldl record_execution (LazyScheduler_init [''A_fwd''])
          [''A_fwd'', ''A_fwd'', ''B_fwd'', ''A_fwd'', ''A_fwd'']) = [''A_fwd'', ''B_fwd'', ''A_fwd'']
   \<and> no_adjacent_duplicates (recorded_execution_order
       (foldl record_execution (LazyScheduler_init [''A_fwd''])
          [''A_fwd'', ''A_fwd'', ''B_fwd'', ''A_fwd'', ''A_fwd'']))"
  using record_execution_coalesces
    [of "LazyScheduler_init [''A_fwd'']" "''A_fwd''"
        "[''A_fwd'', ''A_fwd'', ''B_fwd'', ''A_fwd'', ''A_fwd'']"]
  by (simp add: LazyScheduler_init_def record_execution_def)

section \<open>The reverse scan\<close>

lemma py_index_Some:
  "x \<in> set xs \<Longrightarrow> \<exists>i. py_index xs x = Some i \<and> i < length xs \<and> xs ! i = x"
  unfolding py_index_def
  by (induction xs) auto

lemma py_index_Cons:
  "py_index (b # r) x = (if x = b then Some 0 else map_option Suc (py_index r x))"
  by (auto simp: py_index_def)

lemma exists_early_aux:
  "length s = length r \<Longrightarrow> distinct s \<Longrightarrow> distinct r \<Longrightarrow> set s = set r \<Longrightarrow> s \<noteq> r \<Longrightarrow>
   \<exists>k i. k < length s \<and> py_index r (s ! k) = Some i \<and> i < k"
proof (induction s r rule: list_induct2)
  case Nil
  then show ?case by simp
next
  case (Cons a s b r)
  show ?case
  proof (cases "a = b")
    case True
    with Cons.prems have "distinct s" "distinct r" "set s = set r" "s \<noteq> r"
      by auto
    with Cons.IH obtain k i where ki: "k < length s" "py_index r (s ! k) = Some i" "i < k"
      by blast
    from ki(1) Cons.prems(1) True have "s ! k \<noteq> b"
      by (metis distinct.simps(2) nth_mem)
    with ki have "Suc k < length (a # s) \<and> py_index (b # r) ((a # s) ! Suc k) = Some (Suc i) \<and> Suc i < Suc k"
      by (simp add: py_index_Cons)
    then show ?thesis by blast
  next
    case False
    with Cons.prems have "b \<in> set s" by auto
    then obtain j where j: "j < length s" "s ! j = b"
      by (auto simp: in_set_conv_nth)
    then have "Suc j < length (a # s) \<and> py_index (b # r) ((a # s) ! Suc j) = Some 0 \<and> 0 < Suc j"
      by (simp add: py_index_Cons)
    then show ?thesis by blast
  qed
qed

lemma exists_early:
  assumes "distinct s" "distinct r" "set s = set r" "s \<noteq> r"
  shows "\<exists>k i. k < length s \<and> py_index r (s ! k) = Some i \<and> i < k"
proof -
  have "length s = length r"
    using assms by (metis distinct_card)
  then show ?thesis using assms by (rule exists_early_aux)
qed

lemma scan_from_end_breaks:
  assumes "distinct r" "set s = set r"
    and "\<forall>(k, seg) \<in> set ps. seg \<in> set s \<and> k < length r"
    and "\<exists>(k, seg) \<in> set ps. \<exists>i. py_index r seg = Some i \<and> i < k"
  shows "\<exists>seg d deps'. seg \<in> set s \<and> d \<in> set s \<and> d \<noteq> seg \<and>
           scan_from_end ps s r deps =
             Inr (Some (remove1 d (remove1 seg s), remove1 d (remove1 seg r), deps'))"
  using assms(3,4)
proof (induction ps)
  case Nil
  then show ?case by simp
next
  case (Cons p ps)
  obtain k seg where p: "p = (k, seg)" by (cases p)
  from Cons.prems(1) p have seg: "seg \<in> set s" "k < length r" by auto
  with assms(2) obtain i where i: "py_index r seg = Some i" "i < length r" "r ! i = seg"
    using py_index_Some by (metis)
  show ?case
  proof (cases "i < k")
    case True
    let ?d = "r ! (i + 1)"
    from True seg have lt: "i + 1 < length r" by simp
    then have d_in: "?d \<in> set r" by (meson nth_mem)
    have d_ne: "?d \<noteq> seg"
      using assms(1) i lt by (metis Suc_eq_plus1 lessI less_not_refl nth_eq_iff_index_eq)
    have "scan_from_end (p # ps) s r deps =
            Inr (Some (remove1 ?d (remove1 seg s), remove1 ?d (remove1 seg r),
                       dict_set deps seg (if 1 \<le> i then Some (r ! (i - 1)) else None, ?d)))"
      using i True lt seg d_in d_ne assms(2) p
      by (simp add: py_remove_def Let_def)
    with d_in d_ne seg assms(2) show ?thesis by blast
  next
    case False
    with Cons.prems(2) p i have "\<exists>(k, seg) \<in> set ps. \<exists>i. py_index r seg = Some i \<and> i < k"
      by auto
    moreover from Cons.prems(1) have "\<forall>(k, seg) \<in> set ps. seg \<in> set s \<and> k < length r" by auto
    ultimately obtain seg' d deps' where *: "seg' \<in> set s" "d \<in> set s" "d \<noteq> seg'"
         "scan_from_end ps s r deps =
             Inr (Some (remove1 d (remove1 seg' s), remove1 d (remove1 seg' r), deps'))"
      using Cons.IH by blast
    have "scan_from_end (p # ps) s r deps = scan_from_end ps s r deps"
      using p i False by simp
    with * show ?thesis by metis
  qed
qed

lemma scan_loop_returns_aux:
  "length s = n \<Longrightarrow> distinct s \<Longrightarrow> distinct r \<Longrightarrow> set s = set r \<Longrightarrow>
   \<exists>deps'. scan_loop (s, r, deps) = Some (Inr deps')"
proof (induction n arbitrary: s r deps rule: less_induct)
  case (less n)
  show ?case
  proof (cases "s = r")
    case True
    then show ?thesis by (simp add: scan_loop.simps)
  next
    case False
    have len: "length s = length r"
      using less.prems by (metis distinct_card)
    from exists_early[OF less.prems(2,3,4) False]
    obtain k i where ki: "k < length s" "py_index r (s ! k) = Some i" "i < k" by blast
    have "(k, s ! k) \<in> set (rev (enumerate 0 s))"
      using ki(1) by (auto simp: in_set_enumerate_eq)
    with ki have ex: "\<exists>(k, seg) \<in> set (rev (enumerate 0 s)). \<exists>i. py_index r seg = Some i \<and> i < k"
      by blast
    have all: "\<forall>(k, seg) \<in> set (rev (enumerate 0 s)). seg \<in> set s \<and> k < length r"
      using len by (auto simp: in_set_enumerate_eq)
    from scan_from_end_breaks[OF less.prems(3,4) all ex, of deps]
    obtain seg d deps' where sd: "seg \<in> set s" "d \<in> set s" "d \<noteq> seg"
      "scan_from_end (rev (enumerate 0 s)) s r deps =
         Inr (Some (remove1 d (remove1 seg s), remove1 d (remove1 seg r), deps'))"
      by blast
    let ?s' = "remove1 d (remove1 seg s)" and ?r' = "remove1 d (remove1 seg r)"
    have "length ?s' < n"
      using sd less.prems(1) length_pos_if_in_set[OF sd(1)] by (simp add: length_remove1)
    moreover have "distinct ?s'" "distinct ?r'"
      using less.prems by simp_all
    moreover have "set ?s' = set ?r'"
      using less.prems by simp
    ultimately obtain deps'' where "scan_loop (?s', ?r', deps') = Some (Inr deps'')"
      using less.IH[of "length ?s'" ?s' ?r' deps'] by blast
    with sd(4) False show ?thesis
      by (subst scan_loop.simps) simp
  qed
qed

lemma scan_loop_returns:
  assumes "distinct s" "length s = length r" "set s = set r"
  shows "\<exists>deps'. scan_loop (s, r, deps) = Some (Inr deps')"
proof -
  have "card (set r) = length r"
    using assms by (metis distinct_card)
  then have "distinct r" by (rule card_distinct)
  with assms show ?thesis by (blast intro: scan_loop_returns_aux)
qed

lemma scan_loop_stuck:
  assumes "s \<noteq> r" "scan_from_end (rev (enumerate 0 s)) s r deps = Inr None"
  shows "scan_loop (s, r, deps) = None"
proof (rule ccontr)
  assume "scan_loop (s, r, deps) \<noteq> None"
  then obtain y where y: "scan_loop (s, r, deps) = Some y" by blast
  have "(s, r, deps) \<noteq> (s, r, deps)"
  proof (rule scan_loop.raw_induct[where P = "\<lambda>x y. x \<noteq> (s, r, deps)", OF _ y])
    fix f x z
    assume IH: "\<And>x z. f x = Some z \<Longrightarrow> x \<noteq> (s, r, deps)"
      and body: "(case x of (a, b, c) \<Rightarrow>
        if a = b then Some (Inr c)
        else (case scan_from_end (rev (enumerate 0 a)) a b c of
                Inl e \<Rightarrow> Some (Inl e)
              | Inr None \<Rightarrow> f (a, b, c)
              | Inr (Some s') \<Rightarrow> f s')) = Some z"
    show "x \<noteq> (s, r, deps)"
    proof
      assume "x = (s, r, deps)"
      with body assms have "f (s, r, deps) = Some z" by simp
      with IH show False by blast
    qed
  qed
  then show False by simp
qed

text \<open>Where no name repeats, the scan returns.\<close>

lemma find_delayed_returns:
  assumes "distinct s" "length s = length r" "set s = set r"
  shows "\<exists>msgs. find_delayed_seg_dependencies_best_effort s r = Some (Inr msgs)"
proof -
  obtain deps where "scan_loop (s, r, []) = Some (Inr deps)"
    using scan_loop_returns[OF assms] by blast
  with assms(2) show ?thesis
    by (simp add: find_delayed_seg_dependencies_best_effort_def)
qed

text \<open>
  C8. The claim fails on the code. Whenever the two sequences differ and the \<open>for\<close>
  loop ends without \<open>break\<close>, the \<open>while\<close> loop runs again on the same two lists and
  the scan does not return, where the comment of the loop says that it repeats until
  the two lists are exactly the same. This happens on \<open>[y, x, x]\<close> against
  \<open>[y, y, x]\<close>, which have equal length and are equal as sets, so that they pass the
  \<open>assert\<close> of the scan and the test of \<open>debug\<close> before it: no segment of the first
  stands earlier in the second than in the first.
\<close>

theorem reverse_scan_hangs:
  assumes "length s = length r" and "s \<noteq> r"
    and "scan_from_end (rev (enumerate 0 s)) s r [] = Inr None"
  shows "find_delayed_seg_dependencies_best_effort s r = None"
proof -
  have "scan_loop (s, r, []) = None"
    using assms(2,3) by (rule scan_loop_stuck)
  with assms(1) show ?thesis
    by (simp add: find_delayed_seg_dependencies_best_effort_def)
qed

theorem reverse_scan_hangs_witness:
  "length [''y'', ''x'', ''x''] = length [''y'', ''y'', ''x'']
   \<and> set [''y'', ''x'', ''x''] = set [''y'', ''y'', ''x'']
   \<and> [''y'', ''x'', ''x''] \<noteq> [''y'', ''y'', ''x'']
   \<and> scan_from_end (rev (enumerate 0 [''y'', ''x'', ''x'']))
         [''y'', ''x'', ''x''] [''y'', ''y'', ''x''] [] = Inr None
   \<and> find_delayed_seg_dependencies_best_effort [''y'', ''x'', ''x''] [''y'', ''y'', ''x''] = None"
proof -
  have l: "length [''y'', ''x'', ''x''] = length [''y'', ''y'', ''x'']" by simp
  have n: "[''y'', ''x'', ''x''] \<noteq> [''y'', ''y'', ''x'']" by simp
  have f: "scan_from_end (rev (enumerate 0 [''y'', ''x'', ''x'']))
         [''y'', ''x'', ''x''] [''y'', ''y'', ''x''] [] = Inr None"
    by (simp add: enumerate_eq_zip py_index_def upt_rec)
  have e: "set [''y'', ''x'', ''x''] = set [''y'', ''y'', ''x'']" by auto
  from reverse_scan_hangs [OF l n f] l n f e show ?thesis by blast
qed

section \<open>\<open>debug\<close>\<close>

text \<open>
  C6. \<open>debug\<close> raises the mismatch report whenever the schedule and the filtered
  execution record differ in length or as sets of segment names.
\<close>

theorem debug_raises_mismatch:
  "length (schedule_order st) \<noteq> length (get_recorded_execution_order st)
     \<or> set (schedule_order st) \<noteq> set (get_recorded_execution_order st) \<Longrightarrow>
   debug st = Some (ScheduleMismatch (schedule_order st) (get_recorded_execution_order st))"
  by (auto simp: debug_def)

theorem debug_raises_mismatch_witness:
  "length (schedule_order st_mismatch) \<noteq> length (get_recorded_execution_order st_mismatch)
   \<and> debug st_mismatch = Some (ScheduleMismatch [''A_fwd'', ''B_fwd''] [''A_fwd''])"
  using debug_raises_mismatch [of st_mismatch]
  by (simp add: st_mismatch_def LazyScheduler_init_def get_recorded_execution_order_def
      startswith_def)

lemma st_repeated_simps:
  "schedule_order st_repeated = [''y_fwd'', ''x_fwd'', ''x_fwd'']"
  "get_recorded_execution_order st_repeated = [''y_fwd'', ''y_fwd'', ''x_fwd'']"
  by (simp_all add: st_repeated_def LazyScheduler_init_def record_execution_def
      get_recorded_execution_order_def startswith_def)

text \<open>
  C7. The claim fails on the code. When the schedule and the filtered record pass the
  first test of \<open>debug\<close> (equal length, equal as sets) and differ in sequence, \<open>debug\<close>
  formats the issue message, which calls the reverse scan; when the \<open>for\<close> loop of the
  scan ends without \<open>break\<close> on them, the scan does not return, and \<open>debug\<close> never
  reaches the \<open>raise\<close> that ends it: it raises nothing. \<open>st_repeated\<close> is such a
  state.
\<close>

theorem debug_hangs:
  assumes "length (schedule_order st) = length (get_recorded_execution_order st)"
    and "set (schedule_order st) = set (get_recorded_execution_order st)"
    and "schedule_order st \<noteq> get_recorded_execution_order st"
    and "scan_from_end (rev (enumerate 0 (schedule_order st)))
           (schedule_order st) (get_recorded_execution_order st) [] = Inr None"
  shows "debug st = None"
proof -
  have "scan_loop (schedule_order st, get_recorded_execution_order st, []) = None"
    using assms(3,4) by (rule scan_loop_stuck)
  with assms(1) have "find_delayed_seg_dependencies_best_effort
      (schedule_order st) (get_recorded_execution_order st) = None"
    by (simp add: find_delayed_seg_dependencies_best_effort_def)
  with assms(1,2,3) show ?thesis by (simp add: debug_def)
qed

theorem debug_hangs_witness:
  "schedule_order st_repeated = [''y_fwd'', ''x_fwd'', ''x_fwd'']
   \<and> recorded_execution_order st_repeated = [''y_fwd'', ''__unnamed_0_fwd'', ''y_fwd'', ''x_fwd'']
   \<and> get_recorded_execution_order st_repeated = [''y_fwd'', ''y_fwd'', ''x_fwd'']
   \<and> length (schedule_order st_repeated) = length (get_recorded_execution_order st_repeated)
   \<and> set (schedule_order st_repeated) = set (get_recorded_execution_order st_repeated)
   \<and> schedule_order st_repeated \<noteq> get_recorded_execution_order st_repeated
   \<and> scan_from_end (rev (enumerate 0 (schedule_order st_repeated)))
         (schedule_order st_repeated) (get_recorded_execution_order st_repeated) [] = Inr None
   \<and> debug st_repeated = None"
proof -
  have r: "recorded_execution_order st_repeated
      = [''y_fwd'', ''__unnamed_0_fwd'', ''y_fwd'', ''x_fwd'']"
    by (simp add: st_repeated_def LazyScheduler_init_def record_execution_def)
  have l: "length (schedule_order st_repeated) = length (get_recorded_execution_order st_repeated)"
    by (simp add: st_repeated_simps)
  have e: "set (schedule_order st_repeated) = set (get_recorded_execution_order st_repeated)"
    by (auto simp: st_repeated_simps)
  have n: "schedule_order st_repeated \<noteq> get_recorded_execution_order st_repeated"
    by (simp add: st_repeated_simps)
  have f: "scan_from_end (rev (enumerate 0 (schedule_order st_repeated)))
         (schedule_order st_repeated) (get_recorded_execution_order st_repeated) [] = Inr None"
    by (simp add: st_repeated_simps enumerate_eq_zip py_index_def upt_rec)
  from debug_hangs [OF l e n f] r l e n f show ?thesis
    by (simp add: st_repeated_simps)
qed

text \<open>
  Where the filtered record equals the schedule, \<open>debug\<close> raises the debug mode message
  with no issue in it, and where no name repeats in the schedule it raises a report.
\<close>

lemma debug_raises_without_repeated_name:
  "(schedule_order st = get_recorded_execution_order st \<longrightarrow>
      debug st = Some (DebugModeMsg None (recorded_delayed st)
                         (has_inplace_op_segment_prefixes st)
                         (access_mod_attr_or_glb_var_segment_prefixes st)))
   \<and> (distinct (schedule_order st) \<longrightarrow> (\<exists>e. debug st = Some e \<and> is_report e))"
proof (intro conjI impI)
  assume "schedule_order st = get_recorded_execution_order st"
  then show "debug st = Some (DebugModeMsg None (recorded_delayed st)
                         (has_inplace_op_segment_prefixes st)
                         (access_mod_attr_or_glb_var_segment_prefixes st))"
    by (simp add: debug_def)
next
  assume d: "distinct (schedule_order st)"
  let ?s = "schedule_order st" and ?r = "get_recorded_execution_order st"
  show "\<exists>e. debug st = Some e \<and> is_report e"
  proof (cases "length ?s \<noteq> length ?r \<or> set ?s \<noteq> set ?r")
    case True
    then show ?thesis by (auto simp: debug_def is_report_def)
  next
    case False
    then have eq: "length ?s = length ?r" "set ?s = set ?r" by simp_all
    show ?thesis
    proof (cases "?s = ?r")
      case True
      then show ?thesis by (simp add: debug_def is_report_def)
    next
      case ne: False
      from find_delayed_returns[OF d eq] obtain msgs
        where "find_delayed_seg_dependencies_best_effort ?s ?r = Some (Inr msgs)" by blast
      with eq ne show ?thesis by (simp add: debug_def is_report_def)
    qed
  qed
qed

section \<open>\<open>wait_for_completion\<close>\<close>

text \<open>
  C5. \<open>wait_for_completion\<close> on a handle whose \<open>cuda_event\<close> is \<open>None\<close> raises the
  \<open>RuntimeError\<close> of a handle not scheduled yet, and leaves the whole state, so every
  placeholder, as it was.
\<close>

theorem wait_for_completion_not_scheduled:
  "h < length (heap st) \<Longrightarrow> cuda_event (heap st ! h) = None \<Longrightarrow>
   wait_for_completion st h = (Raised NotScheduled, st)"
  by (simp add: wait_for_completion_def)

theorem wait_for_completion_not_scheduled_witness:
  "0 < length (heap st_fresh) \<and> cuda_event (heap st_fresh ! 0) = None
   \<and> wait_for_completion st_fresh 0 = (Raised NotScheduled, st_fresh)
   \<and> map container (outs_async (heap st_fresh ! 0)) = [None]"
  using wait_for_completion_not_scheduled [of 0 st_fresh]
  by (simp add: st_fresh_def get_or_create_handle_def LazyScheduler_init_def
      AsyncFuncHandle_init_def new_async_tensor_def)

section \<open>What \<open>schedule\<close> keeps\<close>

lemma handle_frame_refl: "handle_frame H H"
  by (simp add: handle_frame_def list_all2_same)

lemma handle_frame_trans:
  "handle_frame H1 H2 \<Longrightarrow> handle_frame H2 H3 \<Longrightarrow> handle_frame H1 H3"
  unfolding handle_frame_def
  by (auto elim: list_all2_trans[rotated])

lemma frame_refl: "frame st st"
  by (simp add: frame_def list_all2_same handle_frame_refl)

lemma frame_trans: "frame st1 st2 \<Longrightarrow> frame st2 st3 \<Longrightarrow> frame st1 st3"
  unfolding frame_def
  by (auto intro: list_all2_trans[where ?P1.0 = handle_frame and ?P2.0 = handle_frame, rotated] handle_frame_trans)

lemma frame_length: "frame st st' \<Longrightarrow> length (heap st') = length (heap st)"
  by (auto simp: frame_def dest: list_all2_lengthD)

lemma frame_nth: "frame st st' \<Longrightarrow> h < length (heap st) \<Longrightarrow> handle_frame (heap st ! h) (heap st' ! h)"
  by (auto simp: frame_def dest: list_all2_nthD)

lemma frame_args: "frame st st' \<Longrightarrow> h < length (heap st) \<Longrightarrow> args (heap st' ! h) = args (heap st ! h)"
  by (drule (1) frame_nth) (simp add: handle_frame_def)

lemma frame_scheduled: "frame st st' \<Longrightarrow> is_scheduled st h \<Longrightarrow> is_scheduled st' h"
  unfolding is_scheduled_def
  by (auto simp: frame_length dest: frame_nth simp: handle_frame_def)

lemma frame_materialized: "frame st st' \<Longrightarrow> is_materialized st h i \<Longrightarrow> is_materialized st' h i"
proof -
  assume f: "frame st st'" and m: "is_materialized st h i"
  from m have h: "h < length (heap st)" and i: "i < length (outs_async (heap st ! h))"
    and c: "container (outs_async (heap st ! h) ! i) \<noteq> None"
    by (auto simp: is_materialized_def lookup_async_def split: if_splits)
  from frame_nth[OF f h] have la: "list_all2 (\<lambda>t t'. container t \<noteq> None \<longrightarrow> container t' \<noteq> None)
           (outs_async (heap st ! h)) (outs_async (heap st' ! h))"
    by (simp add: handle_frame_def)
  from la have len: "length (outs_async (heap st' ! h)) = length (outs_async (heap st ! h))"
    by (simp add: list_all2_lengthD)
  from list_all2_nthD[OF la i] c have "container (outs_async (heap st' ! h) ! i) \<noteq> None"
    by simp
  with h i len f show ?thesis
    by (simp add: is_materialized_def lookup_async_def frame_length)
qed

lemma frame_update:
  assumes "h < length (heap st)" "handle_frame (heap st ! h) (f (heap st ! h))"
  shows "frame st (update_handle st h f)"
  using assms
  by (auto simp: frame_def update_handle_def list_all2_conv_all_nth nth_list_update handle_frame_refl)

lemma frame_record_execution: "frame st (record_execution st name)"
  by (simp add: frame_def record_execution_def list_all2_same handle_frame_refl)

lemma evolves_refl: "evolves st st"
  by (simp add: evolves_def frame_refl)

lemma evolves_trans:
  assumes "evolves st1 st2" "evolves st2 st3"
  shows "evolves st1 st3"
proof -
  from assms obtain n1 n2 where
    f12: "frame st1 st2" and f23: "frame st2 st3"
    and n1: "fn_calls st2 = fn_calls st1 @ n1" "distinct (map fst n1)"
      "\<forall>g \<in> fst ` set n1. \<not> is_scheduled st1 g \<and> is_scheduled st2 g"
    and n2: "fn_calls st3 = fn_calls st2 @ n2" "distinct (map fst n2)"
      "\<forall>g \<in> fst ` set n2. \<not> is_scheduled st2 g \<and> is_scheduled st3 g"
    by (auto simp: evolves_def)
  have "fn_calls st3 = fn_calls st1 @ (n1 @ n2)" using n1 n2 by simp
  moreover have "fst ` set n1 \<inter> fst ` set n2 = {}"
    using n1(3) n2(3) by blast
  then have "distinct (map fst (n1 @ n2))"
    using n1(2) n2(2) by simp
  moreover have "\<forall>g \<in> fst ` set (n1 @ n2). \<not> is_scheduled st1 g \<and> is_scheduled st3 g"
    using n1(3) n2(3) frame_scheduled[OF f12] frame_scheduled[OF f23] by auto
  ultimately show ?thesis
    using frame_trans[OF f12 f23] unfolding evolves_def by blast
qed

lemma frame_same_trace_evolves:
  "frame st st' \<Longrightarrow> fn_calls st' = fn_calls st \<Longrightarrow> evolves st st'"
  by (simp add: evolves_def)

lemma materialize_outs_frame:
  "list_all2 (\<lambda>t t'. container t \<noteq> None \<longrightarrow> container t' \<noteq> None) ts (materialize_outs os ts)"
  by (induction os ts rule: materialize_outs.induct)
     (simp_all add: materialize_with_value_def list_all2_same)

lemma wait_for_completion_evolves:
  "wait_for_completion st h = (r, st') \<Longrightarrow> evolves st st'"
proof -
  assume w: "wait_for_completion st h = (r, st')"
  show ?thesis
  proof (cases "st' = st")
    case True
    then show ?thesis by (simp add: evolves_refl)
  next
    case False
    with w obtain os where h: "h < length (heap st)"
      and st': "st' = update_handle st h (\<lambda>H. H\<lparr>outs_async := materialize_outs os (outs_async H)\<rparr>)"
      by (auto simp: wait_for_completion_def split: if_splits option.splits)
    have "frame st st'"
      unfolding st' using h
      by (intro frame_update) (use materialize_outs_frame in \<open>simp_all add: handle_frame_def\<close>)
    moreover have "fn_calls st' = fn_calls st" by (simp add: st' update_handle_def)
    ultimately show ?thesis by (rule frame_same_trace_evolves)
  qed
qed

lemma wait_until_materialized_evolves:
  assumes sch: "\<And>st h r st'. sch st h = Some (r, st') \<Longrightarrow> evolves st st'"
  shows "wait_until_materialized sch st as = Some (r, st') \<Longrightarrow> evolves st st'"
proof (induction as arbitrary: st)
  case Nil
  then show ?case by (simp add: evolves_refl)
next
  case (Cons a as)
  show ?case
  proof (cases a)
    case ArgNone
    with Cons show ?thesis by simp
  next
    case (ArgTensor v)
    with Cons show ?thesis by simp
  next
    case (ArgAsync h i)
    show ?thesis
    proof (cases "is_materialized st h i")
      case True
      with Cons ArgAsync show ?thesis by simp
    next
      case False
      let ?first = "if is_scheduled st h then Some (Returned (), st) else sch st h"
      from Cons.prems ArgAsync False obtain r1 st1 where first: "?first = Some (r1, st1)"
        by (cases ?first) (auto split: if_splits)
      have e1: "evolves st st1"
        using first sch by (auto split: if_splits simp: evolves_refl)
      show ?thesis
      proof (cases r1)
        case (Returned u)
        obtain r2 st2 where w: "wait_for_completion st1 h = (r2, st2)"
          by (cases "wait_for_completion st1 h")
        have e2: "evolves st1 st2" using w by (rule wait_for_completion_evolves)
        have e12: "evolves st st2" using e1 e2 by (rule evolves_trans)
        show ?thesis
        proof (cases "\<exists>u'. r2 = Returned u' \<and> is_materialized st2 h i")
          case True
          with Cons.prems ArgAsync False first Returned w
          have "wait_until_materialized sch st2 as = Some (r, st')"
            by (auto split: if_splits)
          then have "evolves st2 st'" by (rule Cons.IH)
          with e12 show ?thesis by (rule evolves_trans)
        next
          case F: False
          with Cons.prems ArgAsync False first Returned w have "st' = st2"
            by (cases r2) (auto split: if_splits)
          with e12 show ?thesis by simp
        qed
      next
        case (Raised e)
        with Cons.prems ArgAsync False first have "st' = st1" by (auto split: if_splits)
        with e1 show ?thesis by simp
      next
        case Blocked
        with Cons.prems ArgAsync False first have "st' = st1" by (auto split: if_splits)
        with e1 show ?thesis by simp
      qed
    qed
  qed
qed


lemma run_callable_step:
  assumes "h < length (heap st)" "run_callable st h = (r, st')"
  shows "frame st st'"
    and "fn_calls st' = fn_calls st \<or> (\<exists>vs. fn_calls st' = fn_calls st @ [(h, vs)])"
    and "cuda_event (heap st ! h) \<noteq> None \<Longrightarrow> is_scheduled st' h"
  using assms
  by (auto simp: run_callable_def frame_def update_handle_def record_execution_def
      list_all2_conv_all_nth nth_list_update handle_frame_def Let_def is_scheduled_def
      split: sum.splits option.splits if_splits)

lemma mark_frame:
  "h < length (heap st) \<Longrightarrow> frame st (update_handle st h (\<lambda>H. H\<lparr>cuda_event := Some Created\<rparr>))"
  by (intro frame_update) (simp_all add: handle_frame_def list_all2_same)

lemma schedule_fuel_evolves:
  "schedule_fuel n st h = Some (r, st') \<Longrightarrow> evolves st st'"
proof (induction n arbitrary: st h r st')
  case 0
  then show ?case by simp
next
  case (Suc n)
  show ?case
  proof (cases "h < length (heap st) \<and> cuda_event (heap st ! h) = None")
    case False
    with Suc.prems have "st' = st" by (auto split: if_splits)
    then show ?thesis by (simp add: evolves_refl)
  next
    case True
    then have h: "h < length (heap st)" and un: "\<not> is_scheduled st h"
      by (simp_all add: is_scheduled_def)
    define st1 where "st1 = update_handle st h (\<lambda>H. H\<lparr>cuda_event := Some Created\<rparr>)"
    have f1: "frame st st1" unfolding st1_def using h by (rule mark_frame)
    have t1: "fn_calls st1 = fn_calls st" by (simp add: st1_def update_handle_def)
    have e1: "evolves st st1" using f1 t1 by (rule frame_same_trace_evolves)
    have s1: "is_scheduled st1 h"
      using h by (simp add: st1_def update_handle_def is_scheduled_def)
    show ?thesis
    proof (cases "ArgNone \<in> set (args (heap st1 ! h))")
      case an: True
      with Suc.prems True have "st' = st1"
        by (simp add: st1_def Let_def)
      with e1 show ?thesis by simp
    next
      case an: False
      let ?w = "wait_until_materialized (schedule_fuel n) st1 (args (heap st1 ! h))"
      from Suc.prems True an obtain r2 st2 where w: "?w = Some (r2, st2)"
        by (cases ?w) (auto simp: st1_def Let_def)
      have e2: "evolves st1 st2"
        using w by (rule wait_until_materialized_evolves[rotated]) (rule Suc.IH)
      have e12: "evolves st st2" using e1 e2 by (rule evolves_trans)
      show ?thesis
      proof (cases "\<exists>u. r2 = Returned u")
        case False
        with Suc.prems True an w have "st' = st2"
          by (cases r2) (auto simp: st1_def Let_def)
        with e12 show ?thesis by simp
      next
        case True
        with Suc.prems \<open>h < length (heap st) \<and> cuda_event (heap st ! h) = None\<close> an w
        have run: "run_callable st2 h = (r, st')"
          by (auto simp: st1_def Let_def)
        from e12 obtain new where f2: "frame st st2"
          and new: "fn_calls st2 = fn_calls st @ new" "distinct (map fst new)"
            "\<forall>g \<in> fst ` set new. \<not> is_scheduled st g \<and> is_scheduled st2 g"
          by (auto simp: evolves_def)
        from e2 t1 new(1) have new1: "\<forall>g \<in> fst ` set new. \<not> is_scheduled st1 g"
          by (auto simp: evolves_def)
        with s1 have hnew: "h \<notin> fst ` set new" by blast
        have h2: "h < length (heap st2)" using h f2 by (simp add: frame_length)
        have s2: "is_scheduled st2 h"
          using e2 s1 by (auto simp: evolves_def intro: frame_scheduled)
        note rc = run_callable_step[OF h2 run]
        have f3: "frame st st'" using f2 rc(1) by (rule frame_trans)
        have s3: "is_scheduled st' h" using rc(3) s2 by (simp add: is_scheduled_def)
        from rc(2) show ?thesis
        proof
          assume "fn_calls st' = fn_calls st2"
          with new f3 frame_scheduled[OF rc(1)] show ?thesis
            unfolding evolves_def by auto
        next
          assume "\<exists>vs. fn_calls st' = fn_calls st2 @ [(h, vs)]"
          then obtain vs where vs: "fn_calls st' = fn_calls st2 @ [(h, vs)]" by blast
          have "fn_calls st' = fn_calls st @ (new @ [(h, vs)])" using vs new(1) by simp
          moreover have "distinct (map fst (new @ [(h, vs)]))" using new(2) hnew by simp
          moreover have "\<forall>g \<in> fst ` set (new @ [(h, vs)]). \<not> is_scheduled st g \<and> is_scheduled st' g"
            using new(3) un s3 frame_scheduled[OF rc(1)] by auto
          ultimately show ?thesis using f3 unfolding evolves_def by blast
        qed
      qed
    qed
  qed
qed

lemma filter_update_less:
  "i < length xs \<Longrightarrow> P (xs ! i) \<Longrightarrow> \<not> P y \<Longrightarrow>
   Suc (length (filter P (xs[i := y]))) = length (filter P xs)"
proof (induction xs arbitrary: i)
  case Nil
  then show ?case by simp
next
  case (Cons x xs)
  then show ?case by (cases i) auto
qed

lemma mark_unscheduled:
  "h < length (heap st) \<Longrightarrow> cuda_event (heap st ! h) = None \<Longrightarrow>
   Suc (unscheduled (update_handle st h (\<lambda>H. H\<lparr>cuda_event := Some Created\<rparr>))) = unscheduled st"
  unfolding unscheduled_def update_handle_def
  by (simp add: filter_update_less)

lemma list_all2_filter_le:
  "list_all2 R xs ys \<Longrightarrow> (\<And>x y. R x y \<Longrightarrow> P y \<Longrightarrow> P x) \<Longrightarrow>
   length (filter P ys) \<le> length (filter P xs)"
  by (induction rule: list_all2_induct) auto

lemma frame_unscheduled: "frame st st' \<Longrightarrow> unscheduled st' \<le> unscheduled st"
  unfolding unscheduled_def frame_def
  by (elim conjE list_all2_filter_le) (auto simp: handle_frame_def)

lemma evolves_unscheduled: "evolves st st' \<Longrightarrow> unscheduled st' \<le> unscheduled st"
  by (simp add: evolves_def frame_unscheduled)

lemma wait_until_materialized_total:
  assumes tot: "\<And>st h. unscheduled st \<le> k \<Longrightarrow> sch st h \<noteq> None"
    and ev: "\<And>st h r st'. sch st h = Some (r, st') \<Longrightarrow> evolves st st'"
  shows "unscheduled st \<le> k \<Longrightarrow> wait_until_materialized sch st as \<noteq> None"
proof (induction as arbitrary: st)
  case Nil
  then show ?case by simp
next
  case (Cons a as)
  show ?case
  proof (cases a)
    case ArgNone
    with Cons show ?thesis by simp
  next
    case (ArgTensor v)
    with Cons show ?thesis by simp
  next
    case (ArgAsync h i)
    show ?thesis
    proof (cases "is_materialized st h i")
      case True
      with Cons ArgAsync show ?thesis by simp
    next
      case False
      let ?first = "if is_scheduled st h then Some (Returned (), st) else sch st h"
      from tot[OF Cons.prems, of h] obtain r1 st1 where first: "?first = Some (r1, st1)"
        by (cases "is_scheduled st h") auto
      have e1: "evolves st st1"
        using first ev by (auto split: if_splits simp: evolves_refl)
      obtain r2 st2 where w: "wait_for_completion st1 h = (r2, st2)"
        by (cases "wait_for_completion st1 h")
      have "evolves st1 st2" using w by (rule wait_for_completion_evolves)
      with e1 have "evolves st st2" by (rule evolves_trans)
      then have "unscheduled st2 \<le> k"
        using Cons.prems evolves_unscheduled by fastforce
      then have "wait_until_materialized sch st2 as \<noteq> None" by (rule Cons.IH)
      with ArgAsync False first w show ?thesis
        by (cases r1; cases r2) (auto split: if_splits)
    qed
  qed
qed

lemma schedule_fuel_total:
  "unscheduled st < n \<Longrightarrow> schedule_fuel n st h \<noteq> None"
proof (induction n arbitrary: st h)
  case 0
  then show ?case by simp
next
  case (Suc n)
  show ?case
  proof (cases "h < length (heap st) \<and> cuda_event (heap st ! h) = None")
    case False
    then show ?thesis by auto
  next
    case True
    define st1 where "st1 = update_handle st h (\<lambda>H. H\<lparr>cuda_event := Some Created\<rparr>)"
    from True have "Suc (unscheduled st1) = unscheduled st"
      unfolding st1_def by (simp add: mark_unscheduled)
    with Suc.prems have k: "unscheduled st1 < n" by simp
    have "wait_until_materialized (schedule_fuel n) st1 (args (heap st1 ! h)) \<noteq> None"
    proof (rule wait_until_materialized_total[where k = "unscheduled st1"])
      fix st h assume "unscheduled st \<le> unscheduled st1"
      with k have "unscheduled st < n" by simp
      then show "schedule_fuel n st h \<noteq> None" by (rule Suc.IH)
    next
      fix st h r st' assume "schedule_fuel n st h = Some (r, st')"
      then show "evolves st st'" by (rule schedule_fuel_evolves)
    qed simp
    then obtain r2 st2 where
      "wait_until_materialized (schedule_fuel n) st1 (args (heap st1 ! h)) = Some (r2, st2)"
      by auto
    with True show ?thesis
      by (cases r2) (auto simp: st1_def Let_def)
  qed
qed

lemma unscheduled_le_length: "unscheduled st \<le> length (heap st)"
  by (simp add: unscheduled_def)

lemma schedule_total: "\<exists>r st'. schedule st h = Some (r, st')"
proof -
  have "unscheduled st < Suc (length (heap st))"
    using unscheduled_le_length[of st] by simp
  then have "schedule_fuel (Suc (length (heap st))) st h \<noteq> None"
    by (rule schedule_fuel_total)
  then show ?thesis by (auto simp: schedule_def)
qed

lemma schedule_evolves: "schedule st h = Some (r, st') \<Longrightarrow> evolves st st'"
  unfolding schedule_def by (rule schedule_fuel_evolves)

lemma evolves_exec_once:
  assumes "evolves st st'" "exec_once st"
  shows "exec_once st'"
proof -
  from assms(1) obtain new where f: "frame st st'"
    and new: "fn_calls st' = fn_calls st @ new" "distinct (map fst new)"
       "\<forall>g \<in> fst ` set new. \<not> is_scheduled st g \<and> is_scheduled st' g"
    by (auto simp: evolves_def)
  from assms(2) have old: "distinct (map fst (fn_calls st))"
    "\<forall>g \<in> fst ` set (fn_calls st). is_scheduled st g"
    by (auto simp: exec_once_def list_all_iff)
  have "fst ` set (fn_calls st) \<inter> fst ` set new = {}"
    using old(2) new(3) by blast
  then have "distinct (map fst (fn_calls st'))"
    using old(1) new(1,2) by simp
  moreover have "\<forall>g \<in> fst ` set (fn_calls st'). is_scheduled st' g"
    using old(2) new(1,3) frame_scheduled[OF f] by auto
  ultimately show ?thesis by (auto simp: exec_once_def list_all_iff)
qed

lemma schedule_calls_exec_once:
  "exec_once st \<Longrightarrow> \<exists>st'. schedule_calls st hs = Some st' \<and> exec_once st'"
proof (induction hs arbitrary: st)
  case Nil
  then show ?case by simp
next
  case (Cons h hs)
  obtain r st1 where s: "schedule st h = Some (r, st1)"
    using schedule_total by blast
  then have "exec_once st1"
    using Cons.prems by (blast intro: evolves_exec_once schedule_evolves)
  from Cons.IH[OF this] s show ?case by simp
qed

lemma distinct_count_le_1: "distinct xs \<Longrightarrow> count_list xs x \<le> 1"
  by (induction xs) auto

lemma schedule_scheduled_noop: "is_scheduled st h \<Longrightarrow> schedule st h = Some (Returned (), st)"
  by (simp add: schedule_def is_scheduled_def)

text \<open>
  The bound on the depth does not change a result: what \<open>schedule_fuel\<close> returns with
  some bound, it returns with every larger one, and \<open>schedule\<close> returns it.
\<close>

lemma wait_until_materialized_mono:
  assumes "\<And>st h x. sch st h = Some x \<Longrightarrow> sch' st h = Some x"
  shows "wait_until_materialized sch st as = Some x \<Longrightarrow>
         wait_until_materialized sch' st as = Some x"
proof (induction as arbitrary: st)
  case Nil
  then show ?case by simp
next
  case (Cons a as)
  show ?case
  proof (cases a)
    case ArgNone
    with Cons show ?thesis by simp
  next
    case (ArgTensor v)
    with Cons show ?thesis by simp
  next
    case (ArgAsync h i)
    show ?thesis
    proof (cases "is_materialized st h i \<or> is_scheduled st h")
      case True
      with Cons ArgAsync show ?thesis
        by (auto split: option.splits outcome.splits prod.splits if_splits)
    next
      case False
      with Cons.prems ArgAsync obtain y where y: "sch st h = Some y"
        by (cases "sch st h") auto
      then have y': "sch' st h = Some y" by (rule assms)
      from Cons.prems Cons.IH ArgAsync False y y' show ?thesis
        by (auto split: option.splits outcome.splits prod.splits if_splits)
    qed
  qed
qed

lemma schedule_fuel_Suc:
  "schedule_fuel n st h = Some x \<Longrightarrow> schedule_fuel (Suc n) st h = Some x"
proof (induction n arbitrary: st h x)
  case 0
  then show ?case by simp
next
  case (Suc n)
  show ?case
  proof (cases "h < length (heap st) \<and> cuda_event (heap st ! h) = None")
    case False
    with Suc.prems show ?thesis by (auto split: if_splits)
  next
    case True
    define st1 where "st1 = update_handle st h (\<lambda>H. H\<lparr>cuda_event := Some Created\<rparr>)"
    show ?thesis
    proof (cases "ArgNone \<in> set (args (heap st1 ! h))")
      case an: True
      with Suc.prems True show ?thesis by (simp add: st1_def Let_def)
    next
      case an: False
      let ?w = "\<lambda>k. wait_until_materialized (schedule_fuel k) st1 (args (heap st1 ! h))"
      from Suc.prems True an obtain y where w: "?w n = Some y"
        by (cases "?w n") (auto simp: st1_def Let_def)
      then have w': "?w (Suc n) = Some y"
        by (rule wait_until_materialized_mono[rotated]) (rule Suc.IH)
      from Suc.prems True an w have "x = (case y of (Returned u, st2) \<Rightarrow> run_callable st2 h
            | (Raised e, st2) \<Rightarrow> (Raised e, st2) | (Blocked, st2) \<Rightarrow> (Blocked, st2))"
        by (auto simp: st1_def Let_def split: outcome.splits prod.splits)
      with True an w' show ?thesis
        unfolding schedule_fuel.simps(2)[of "Suc n"]
        by (auto simp: st1_def Let_def split: outcome.splits prod.splits)
    qed
  qed
qed

lemma schedule_fuel_mono:
  "schedule_fuel n st h = Some x \<Longrightarrow> n \<le> m \<Longrightarrow> schedule_fuel m st h = Some x"
  by (induction m) (auto simp: le_Suc_eq dest: schedule_fuel_Suc simp del: schedule_fuel.simps)

lemma schedule_fuel_schedule:
  assumes "schedule_fuel n st h = Some x"
  shows "schedule st h = Some x"
proof -
  obtain r st' where s: "schedule st h = Some (r, st')" using schedule_total by blast
  show ?thesis
  proof (cases "n \<le> Suc (length (heap st))")
    case True
    with assms show ?thesis unfolding schedule_def by (rule schedule_fuel_mono)
  next
    case False
    then have "Suc (length (heap st)) \<le> n" by simp
    with s have "schedule_fuel n st h = Some (r, st')"
      unfolding schedule_def by (rule schedule_fuel_mono)
    with assms s show ?thesis by simp
  qed
qed

section \<open>\<open>schedule\<close> runs a callable at most once\<close>

lemma st_AB2_reached: "schedule st_AB1 0 = Some (Returned (), st_AB2)"
  by (simp add: ex_defs run_defs)

text \<open>
  C3. \<open>schedule()\<close> on a handle whose \<open>cuda_event\<close> is set returns and leaves the state
  as it is. From a state in which no callable was called twice, every sequence of
  \<open>schedule()\<close> calls returns and ends in such a state, so the callable of every handle
  \<open>g\<close> is called at most once; the same holds of every call of \<open>schedule\<close> at any depth
  of the calls that \<open>schedule\<close> makes of itself through the wait for its arguments.
\<close>

theorem schedule_executes_at_most_once:
  "(is_scheduled st h \<longrightarrow> schedule st h = Some (Returned (), st))
   \<and> (exec_once st \<longrightarrow>
        (\<exists>st'. schedule_calls st hs = Some st' \<and> exec_once st'
           \<and> count_list (map fst (fn_calls st')) g \<le> 1))
   \<and> (exec_once st \<and> schedule_fuel n st h = Some (r, st2) \<longrightarrow> exec_once st2)"
proof (intro conjI impI)
  assume "is_scheduled st h"
  then show "schedule st h = Some (Returned (), st)" by (rule schedule_scheduled_noop)
next
  assume "exec_once st"
  then obtain st' where st': "schedule_calls st hs = Some st'" "exec_once st'"
    using schedule_calls_exec_once by blast
  then have "count_list (map fst (fn_calls st')) g \<le> 1"
    using distinct_count_le_1[of "map fst (fn_calls st')" g] by (simp add: exec_once_def)
  with st' show "\<exists>st'. schedule_calls st hs = Some st' \<and> exec_once st'
           \<and> count_list (map fst (fn_calls st')) g \<le> 1" by blast
next
  assume "exec_once st \<and> schedule_fuel n st h = Some (r, st2)"
  then show "exec_once st2"
    by (blast intro: evolves_exec_once schedule_fuel_evolves)
qed

theorem schedule_executes_at_most_once_witness:
  "is_scheduled st_AB2 0 \<and> exec_once st_AB2
   \<and> schedule st_AB1 0 = Some (Returned (), st_AB2)
   \<and> schedule st_AB2 0 = Some (Returned (), st_AB2)
   \<and> schedule_fuel 1 st_AB2 0 = Some (Returned (), st_AB2)
   \<and> (\<exists>st'. schedule_calls st_AB2 [1, 0, 1] = Some st' \<and> exec_once st'
         \<and> count_list (map fst (fn_calls st')) 1 \<le> 1
         \<and> fn_calls st' = [(0, [5]), (1, [7])])"
proof -
  have h1: "is_scheduled st_AB2 0" by (simp add: is_scheduled_def ex_defs)
  have h2: "exec_once st_AB2" by (simp add: exec_once_def is_scheduled_def ex_defs)
  have h3: "schedule_fuel 1 st_AB2 0 = Some (Returned (), st_AB2)" by (simp add: ex_defs)
  note t = schedule_executes_at_most_once [of st_AB2 0 "[1, 0, 1]" 1 1 "Returned ()" st_AB2]
  from t h1 have a: "schedule st_AB2 0 = Some (Returned (), st_AB2)" by blast
  from t h2 obtain st' where st': "schedule_calls st_AB2 [1, 0, 1] = Some st'" "exec_once st'"
    "count_list (map fst (fn_calls st')) 1 \<le> 1" by blast
  have "map_option fn_calls (schedule_calls st_AB2 [1, 0, 1]) = Some [(0, [5]), (1, [7])]"
    by (simp add: ex_defs run_defs)
  with st' have "fn_calls st' = [(0, [5]), (1, [7])]" by simp
  with st' h1 h2 h3 a st_AB2_reached show ?thesis by blast
qed

section \<open>\<open>schedule\<close> waits for its inputs\<close>

lemma frame_all_materialized:
  "frame st st' \<Longrightarrow> all_materialized st as \<Longrightarrow> all_materialized st' as"
  unfolding all_materialized_def list_all_iff
  by (auto split: arg.splits intro: frame_materialized)

lemma frame_call_sound: "frame st st' \<Longrightarrow> call_sound st c \<Longrightarrow> call_sound st' c"
  unfolding call_sound_def
  by (auto simp: frame_length frame_args intro: frame_all_materialized)

lemma frame_inputs_materialized:
  "frame st st' \<Longrightarrow> fn_calls st' = fn_calls st \<Longrightarrow> inputs_materialized st \<Longrightarrow>
   inputs_materialized st'"
  unfolding inputs_materialized_def list_all_iff
  by (auto intro: frame_call_sound)

lemma all_materialized_Cons:
  "all_materialized st (a # as) =
     ((case a of ArgAsync h i \<Rightarrow> is_materialized st h i | _ \<Rightarrow> True) \<and> all_materialized st as)"
  by (simp add: all_materialized_def)

lemma read_args_ok:
  "ArgNone \<notin> set as \<Longrightarrow> all_materialized st as \<Longrightarrow>
   \<exists>vs. read_args st as = Inr vs \<and> length vs = length as"
proof (induction as)
  case Nil
  then show ?case by simp
next
  case (Cons a as)
  then obtain vs where vs: "read_args st as = Inr vs" "length vs = length as"
    by (auto simp: all_materialized_Cons)
  from Cons.prems obtain v where "read_arg st a = Inr v"
    by (cases a)
       (auto simp: all_materialized_Cons read_arg_def get_materialized_tensor_def
          is_materialized_def split: option.splits)
  with vs show ?case by simp
qed

lemma wait_for_completion_not_rbm:
  "wait_for_completion st h = (r, st') \<Longrightarrow> r \<noteq> Raised ReadBeforeMaterialized"
  by (auto simp: wait_for_completion_def split: if_splits option.splits)

lemma wait_for_completion_inputs:
  assumes "wait_for_completion st h = (r, st')" "inputs_materialized st"
  shows "inputs_materialized st'"
proof -
  from assms(1) have e: "evolves st st'" by (rule wait_for_completion_evolves)
  moreover from assms(1) have "fn_calls st' = fn_calls st"
    by (auto simp: wait_for_completion_def update_handle_def split: if_splits option.splits)
  ultimately show ?thesis
    using assms(2) by (auto simp: evolves_def intro: frame_inputs_materialized)
qed

lemma wait_until_materialized_sound:
  assumes ev: "\<And>st h r st'. sch st h = Some (r, st') \<Longrightarrow> evolves st st'"
    and q: "\<And>st h r st'. sch st h = Some (r, st') \<Longrightarrow>
              r \<noteq> Raised ReadBeforeMaterialized
              \<and> (inputs_materialized st \<longrightarrow> inputs_materialized st')"
  shows "wait_until_materialized sch st as = Some (r, st') \<Longrightarrow>
         r \<noteq> Raised ReadBeforeMaterialized
         \<and> (inputs_materialized st \<longrightarrow> inputs_materialized st')
         \<and> ((\<exists>u. r = Returned u) \<longrightarrow> all_materialized st' as)"
proof (induction as arbitrary: st)
  case Nil
  then show ?case by (auto simp: all_materialized_def)
next
  case (Cons a as)
  show ?case
  proof (cases a)
    case ArgNone
    with Cons.prems have rest: "wait_until_materialized sch st as = Some (r, st')" by simp
    from Cons.IH[OF rest] ArgNone show ?thesis by (simp add: all_materialized_Cons)
  next
    case (ArgTensor v)
    with Cons.prems have rest: "wait_until_materialized sch st as = Some (r, st')" by simp
    from Cons.IH[OF rest] ArgTensor show ?thesis by (simp add: all_materialized_Cons)
  next
    case (ArgAsync h i)
    show ?thesis
    proof (cases "is_materialized st h i")
      case True
      with Cons.prems ArgAsync have rest: "wait_until_materialized sch st as = Some (r, st')"
        by simp
      from rest have "evolves st st'" by (rule wait_until_materialized_evolves[rotated]) (rule ev)
      then have "is_materialized st' h i"
        using True by (auto simp: evolves_def intro: frame_materialized)
      with Cons.IH[OF rest] ArgAsync show ?thesis
        by (simp add: all_materialized_Cons)
    next
      case False
      let ?first = "if is_scheduled st h then Some (Returned (), st) else sch st h"
      from Cons.prems ArgAsync False obtain r1 st1 where first: "?first = Some (r1, st1)"
        by (cases ?first) (auto split: if_splits)
      have q1: "r1 \<noteq> Raised ReadBeforeMaterialized"
        "inputs_materialized st \<longrightarrow> inputs_materialized st1"
        using first q by (auto split: if_splits)
      show ?thesis
      proof (cases r1)
        case (Returned u)
        obtain r2 st2 where w: "wait_for_completion st1 h = (r2, st2)"
          by (cases "wait_for_completion st1 h")
        have q2: "r2 \<noteq> Raised ReadBeforeMaterialized"
          "inputs_materialized st \<longrightarrow> inputs_materialized st2"
          using w q1 wait_for_completion_not_rbm wait_for_completion_inputs by blast+
        show ?thesis
        proof (cases "\<exists>u'. r2 = Returned u' \<and> is_materialized st2 h i")
          case True
          with Cons.prems ArgAsync False first Returned w
          have rest: "wait_until_materialized sch st2 as = Some (r, st')"
            by (auto split: if_splits)
          from rest have "evolves st2 st'" by (rule wait_until_materialized_evolves[rotated]) (rule ev)
          then have "is_materialized st' h i"
            using True by (auto simp: evolves_def intro: frame_materialized)
          with Cons.IH[OF rest] q2 ArgAsync show ?thesis
            by (simp add: all_materialized_Cons)
        next
          case F: False
          with Cons.prems ArgAsync False first Returned w
          have "st' = st2" "\<not> (\<exists>u. r = Returned u)" "r = r2 \<or> r = Blocked"
            by (cases r2; auto split: if_splits)+
          with q2 show ?thesis by auto
        qed
      next
        case (Raised e)
        with Cons.prems ArgAsync False first have "st' = st1" "r = r1"
          by (auto split: if_splits)
        with q1 Raised show ?thesis by auto
      next
        case Blocked
        with Cons.prems ArgAsync False first have "st' = st1" "r = r1"
          by (auto split: if_splits)
        with q1 Blocked show ?thesis by auto
      qed
    qed
  qed
qed

lemma run_callable_sound:
  assumes h: "h < length (heap st)" and nn: "ArgNone \<notin> set (args (heap st ! h))"
    and am: "all_materialized st (args (heap st ! h))"
    and run: "run_callable st h = (r, st')"
  shows "r \<noteq> Raised ReadBeforeMaterialized"
    and "inputs_materialized st \<Longrightarrow> inputs_materialized st'"
proof -
  from read_args_ok[OF nn am] obtain vs where
    vs: "read_args st (args (heap st ! h)) = Inr vs" "length vs = length (args (heap st ! h))"
    by blast
  from run vs(1) show "r \<noteq> Raised ReadBeforeMaterialized"
    by (auto simp: run_callable_def Let_def split: option.splits)
  note rc = run_callable_step[OF h run]
  from run vs(1) have tr: "fn_calls st' = fn_calls st @ [(h, vs)]"
    by (auto simp: run_callable_def Let_def update_handle_def record_execution_def
        split: option.splits)
  have new: "call_sound st' (h, vs)"
    using frame_call_sound[OF rc(1), of "(h, vs)"] h am vs(2)
    by (simp add: call_sound_def)
  assume "inputs_materialized st"
  then have "list_all (call_sound st') (fn_calls st)"
    unfolding inputs_materialized_def list_all_iff
    by (auto intro: frame_call_sound[OF rc(1)])
  with new tr show "inputs_materialized st'"
    by (simp add: inputs_materialized_def)
qed

lemma schedule_fuel_sound:
  "schedule_fuel n st h = Some (r, st') \<Longrightarrow>
   r \<noteq> Raised ReadBeforeMaterialized \<and> (inputs_materialized st \<longrightarrow> inputs_materialized st')"
proof (induction n arbitrary: st h r st')
  case 0
  then show ?case by simp
next
  case (Suc n)
  show ?case
  proof (cases "h < length (heap st) \<and> cuda_event (heap st ! h) = None")
    case False
    with Suc.prems show ?thesis by (auto split: if_splits)
  next
    case True
    then have h: "h < length (heap st)" by simp
    define st1 where "st1 = update_handle st h (\<lambda>H. H\<lparr>cuda_event := Some Created\<rparr>)"
    have f1: "frame st st1" unfolding st1_def using h by (rule mark_frame)
    have t1: "fn_calls st1 = fn_calls st" by (simp add: st1_def update_handle_def)
    have i1: "inputs_materialized st \<Longrightarrow> inputs_materialized st1"
      using f1 t1 by (rule frame_inputs_materialized)
    show ?thesis
    proof (cases "ArgNone \<in> set (args (heap st1 ! h))")
      case an: True
      with Suc.prems True have "st' = st1" "r = Raised AssertionError"
        by (simp_all add: st1_def Let_def)
      with i1 show ?thesis by simp
    next
      case an: False
      let ?w = "wait_until_materialized (schedule_fuel n) st1 (args (heap st1 ! h))"
      from Suc.prems True an obtain r2 st2 where w: "?w = Some (r2, st2)"
        by (cases ?w) (auto simp: st1_def Let_def)
      have "r2 \<noteq> Raised ReadBeforeMaterialized
        \<and> (inputs_materialized st1 \<longrightarrow> inputs_materialized st2)
        \<and> ((\<exists>u. r2 = Returned u) \<longrightarrow> all_materialized st2 (args (heap st1 ! h)))"
      proof (rule wait_until_materialized_sound[where sch = "schedule_fuel n", OF _ _ w])
        show "\<And>st h r st'. schedule_fuel n st h = Some (r, st') \<Longrightarrow> evolves st st'"
          by (rule schedule_fuel_evolves)
        show "\<And>st h r st'. schedule_fuel n st h = Some (r, st') \<Longrightarrow>
                r \<noteq> Raised ReadBeforeMaterialized
                \<and> (inputs_materialized st \<longrightarrow> inputs_materialized st')"
          by (rule Suc.IH)
      qed
      then have ws: "r2 \<noteq> Raised ReadBeforeMaterialized"
        "inputs_materialized st1 \<longrightarrow> inputs_materialized st2"
        "(\<exists>u. r2 = Returned u) \<longrightarrow> all_materialized st2 (args (heap st1 ! h))"
        by blast+
      have e2: "evolves st1 st2"
        using w by (rule wait_until_materialized_evolves[rotated]) (rule schedule_fuel_evolves)
      show ?thesis
      proof (cases "\<exists>u. r2 = Returned u")
        case False
        with Suc.prems True an w have "st' = st2" "r = r2"
          by (cases r2; auto simp: st1_def Let_def)+
        with ws i1 show ?thesis by auto
      next
        case R: True
        with Suc.prems True an w have run: "run_callable st2 h = (r, st')"
          by (auto simp: st1_def Let_def)
        have h1: "h < length (heap st1)" using h f1 by (simp add: frame_length)
        have f2: "frame st1 st2" using e2 by (simp add: evolves_def)
        have h2: "h < length (heap st2)" using h1 f2 by (simp add: frame_length)
        have a2: "args (heap st2 ! h) = args (heap st1 ! h)"
          using f2 h1 by (rule frame_args)
        from run_callable_sound[OF h2 _ _ run] an a2 ws(3) R ws(2) i1
        show ?thesis by auto
      qed
    qed
  qed
qed

text \<open>
  C2. A call of \<open>schedule\<close>, at any depth, never reads a placeholder that holds no value
  when it prepares the arguments of the callable, and it keeps every call of the trace
  sound: the callable of a handle is called only once every placeholder among the
  arguments of the handle is materialized. This is so because the wait that precedes the
  call, when it returns, leaves every placeholder among the arguments materialized.
\<close>

theorem schedule_waits_for_inputs:
  "(schedule_fuel n st h = Some (r, st') \<longrightarrow>
      r \<noteq> Raised ReadBeforeMaterialized
      \<and> (inputs_materialized st \<longrightarrow> inputs_materialized st'))
   \<and> (wait_until_materialized (schedule_fuel n) st as = Some (Returned u, st2) \<longrightarrow>
        all_materialized st2 as)"
proof (intro conjI impI)
  assume s: "schedule_fuel n st h = Some (r, st')"
  from schedule_fuel_sound[OF s] show "r \<noteq> Raised ReadBeforeMaterialized" by simp
  assume "inputs_materialized st"
  with schedule_fuel_sound[OF s] show "inputs_materialized st'" by simp
next
  assume w: "wait_until_materialized (schedule_fuel n) st as = Some (Returned u, st2)"
  have "Returned u \<noteq> Raised ReadBeforeMaterialized
        \<and> (inputs_materialized st \<longrightarrow> inputs_materialized st2)
        \<and> ((\<exists>u'. Returned u = Returned u') \<longrightarrow> all_materialized st2 as)"
  proof (rule wait_until_materialized_sound[where sch = "schedule_fuel n", OF _ _ w])
    show "\<And>st h r st'. schedule_fuel n st h = Some (r, st') \<Longrightarrow> evolves st st'"
      by (rule schedule_fuel_evolves)
    show "\<And>st h r st'. schedule_fuel n st h = Some (r, st') \<Longrightarrow>
            r \<noteq> Raised ReadBeforeMaterialized
            \<and> (inputs_materialized st \<longrightarrow> inputs_materialized st')"
      by (rule schedule_fuel_sound)
  qed
  then show "all_materialized st2 as" by simp
qed

theorem schedule_waits_for_inputs_witness:
  "inputs_materialized st_AB1
   \<and> (\<exists>r st'. schedule_fuel (Suc (Suc 0)) st_AB1 1 = Some (r, st')
         \<and> r \<noteq> Raised ReadBeforeMaterialized \<and> inputs_materialized st'
         \<and> fn_calls st' = [(0, [5]), (1, [7])])
   \<and> (\<exists>u st2. wait_until_materialized (schedule_fuel (Suc (Suc 0))) st_AB1 [ArgAsync 0 0]
                  = Some (Returned u, st2)
         \<and> all_materialized st2 [ArgAsync 0 0] \<and> fn_calls st2 = [(0, [5])])"
proof -
  have i: "inputs_materialized st_AB1" by (simp add: inputs_materialized_def ex_defs)
  have "\<exists>r st'. schedule_fuel (Suc (Suc 0)) st_AB1 1 = Some (r, st')
          \<and> fn_calls st' = [(0, [5]), (1, [7])]"
    by (simp add: ex_defs run_defs)
  then obtain r st' where s: "schedule_fuel (Suc (Suc 0)) st_AB1 1 = Some (r, st')"
    "fn_calls st' = [(0, [5]), (1, [7])]" by blast
  have "\<exists>u st2. wait_until_materialized (schedule_fuel (Suc (Suc 0))) st_AB1 [ArgAsync 0 0]
                  = Some (Returned u, st2) \<and> fn_calls st2 = [(0, [5])]"
    by (simp add: ex_defs run_defs)
  then obtain u st2 where w: "wait_until_materialized (schedule_fuel (Suc (Suc 0))) st_AB1
      [ArgAsync 0 0] = Some (Returned u, st2)" "fn_calls st2 = [(0, [5])]" by blast
  note t = schedule_waits_for_inputs [of "Suc (Suc 0)" st_AB1 1 r st' "[ArgAsync 0 0]" u st2]
  from t s(1) i have "r \<noteq> Raised ReadBeforeMaterialized" "inputs_materialized st'" by blast+
  moreover from t w(1) have "all_materialized st2 [ArgAsync 0 0]" by blast
  ultimately show ?thesis using i s w by blast
qed

section \<open>\<open>maybe_run\<close>\<close>

lemma registry_nonempty_init: "registry_nonempty (LazyScheduler_init sched)"
  by (simp add: registry_nonempty_def LazyScheduler_init_def)

lemma registry_nonempty_register:
  "registry_nonempty st \<Longrightarrow> registry_nonempty (register_gm st name g)"
  by (simp add: registry_nonempty_def register_gm_def)


lemma walk_gms_admit:
  "(case admit_instances hm cur gms acc of
      Inl verdict \<Rightarrow> (\<forall>hs. verdict \<noteq> Exhausted hs)
                       \<and> walk_agrees verdict (walk_gms hm cur gms (acc, True, False))
    | Inr acc' \<Rightarrow> walk_gms hm cur gms (acc, True, False) = (acc', True, False))"
proof (induction gms arbitrary: acc)
  case Nil
  show ?case by simp
next
  case (Cons g gs)
  show ?case
  proof (cases "graph_str g = cur")
    case True
    then show ?thesis by simp
  next
    case False
    show ?thesis
    proof (cases "hm (gm_id g)")
      case None
      with False show ?thesis by simp
    next
      case (Some h)
      with False have eq: "walk_gms hm cur (g # gs) (acc, True, False)
          = walk_gms hm cur gs (acc @ [h], True, False)"
        and eq': "admit_instances hm cur (g # gs) acc = admit_instances hm cur gs (acc @ [h])"
        by simp_all
      show ?thesis unfolding eq eq' by (rule Cons.IH)
    qed
  qed
qed

lemma walk_schedule_admission_from:
  "registry_nonempty st \<Longrightarrow> length (schedule_order st) - i = n \<Longrightarrow>
   walk_agrees
     (admission_walk (segment_to_gms_map st) (gm_to_handle_map st) cur
        (drop i (schedule_order st)) acc)
     (walk_schedule st cur i (acc, True, False))"
proof (induction n arbitrary: i acc)
  case 0
  then have "drop i (schedule_order st) = []" "\<not> i < length (schedule_order st)" by simp_all
  then show ?case by (simp add: walk_schedule.simps)
next
  case (Suc n)
  then have lt: "i < length (schedule_order st)" by simp
  then have dr: "drop i (schedule_order st) = schedule_order st ! i # drop (Suc i) (schedule_order st)"
    by (simp add: Cons_nth_drop_Suc)
  show ?case
  proof (cases "segment_to_gms_map st (schedule_order st ! i)")
    case None
    with lt dr show ?thesis by (simp add: walk_schedule.simps)
  next
    case (Some gms)
    with Suc.prems(1) have ne: "gms \<noteq> []" by (auto simp: registry_nonempty_def)
    note wg = walk_gms_admit[of "gm_to_handle_map st" cur gms acc]
    show ?thesis
    proof (cases "admit_instances (gm_to_handle_map st) cur gms acc")
      case (Inl verdict)
      with wg have v: "\<forall>hs. verdict \<noteq> Exhausted hs"
        "walk_agrees verdict (walk_gms (gm_to_handle_map st) cur gms (acc, True, False))"
        by simp_all
      obtain a c r where w: "walk_gms (gm_to_handle_map st) cur gms (acc, True, False) = (a, c, r)"
        by (cases "walk_gms (gm_to_handle_map st) cur gms (acc, True, False)")
      from v w have "r \<or> \<not> c" by (cases verdict) auto
      with v w Inl Some lt dr ne show ?thesis
        by (simp add: walk_schedule.simps[of st cur i] Let_def)
    next
      case (Inr acc')
      with wg have w: "walk_gms (gm_to_handle_map st) cur gms (acc, True, False) = (acc', True, False)"
        by simp
      from Suc.prems have "length (schedule_order st) - Suc i = n" by simp
      from Suc.IH[OF Suc.prems(1) this, of acc'] Inr w Some lt dr ne show ?thesis
        by (simp add: walk_schedule.simps[of st cur i] Let_def)
    qed
  qed
qed

lemma walk_schedule_admission:
  "registry_nonempty st \<Longrightarrow>
   walk_agrees
     (admission_walk (segment_to_gms_map st) (gm_to_handle_map st) cur (schedule_order st) [])
     (walk_schedule st cur 0 ([], True, False))"
  using walk_schedule_admission_from[of st 0 _ cur "[]"] by simp

lemma schedule_each_total: "\<exists>r st'. schedule_each st hs = Some (r, st')"
proof (induction hs arbitrary: st)
  case Nil
  then show ?case by simp
next
  case (Cons h hs)
  obtain r st1 where s: "schedule st h = Some (r, st1)" using schedule_total by blast
  with Cons.IH[of st1] show ?case by (cases r) auto
qed

lemma schedule_each_snoc:
  "schedule_each st (hs @ [h]) =
     (case schedule_each st hs of
        None \<Rightarrow> None
      | Some (Returned u, st2) \<Rightarrow>
          (case schedule st2 h of
             None \<Rightarrow> None
           | Some (Returned u', st3) \<Rightarrow> Some (Returned (), st3)
           | Some (Raised e, st3) \<Rightarrow> Some (Raised e, st3)
           | Some (Blocked, st3) \<Rightarrow> Some (Blocked, st3))
      | Some (Raised e, st2) \<Rightarrow> Some (Raised e, st2)
      | Some (Blocked, st2) \<Rightarrow> Some (Blocked, st2))"
proof (induction hs arbitrary: st)
  case Nil
  show ?case by (auto split: option.splits outcome.splits)
next
  case (Cons a hs)
  then show ?case by (auto split: option.splits outcome.splits)
qed

lemma run_in_order_total: "\<exists>r st'. run_in_order st hs cur = Some (r, st')"
proof -
  obtain r st' where "schedule_each st hs = Some (r, st')" using schedule_each_total by blast
  then show ?thesis by (cases r) (auto simp: run_in_order_def)
qed

lemma maybe_run_admitted:
  assumes "ArgNone \<notin> set as"
    and "get_or_create_handle st g f name as fakes = Inr (cur, st1)"
    and "walk_schedule st1 (graph_str g) 0 ([], True, False) = (hs, True, reached)"
  shows "maybe_run st g f name as fakes = run_in_order st1 (hs @ [cur]) cur"
  using assms
  by (auto simp: maybe_run_def run_in_order_def schedule_each_snoc
      split: option.splits outcome.splits)

lemma get_or_create_handle_props:
  assumes "get_or_create_handle st g f name as fakes = Inr (cur, st1)"
  shows "fn_calls st1 = fn_calls st" "recorded_execution_order st1 = recorded_execution_order st"
    "recorded_delayed st1 = recorded_delayed st" "take (length (heap st)) (heap st1) = heap st"
    "list_all (\<lambda>H. cuda_event H = None) (drop (length (heap st)) (heap st1))"
    "schedule_order st1 = schedule_order st" "segment_to_gms_map st1 = segment_to_gms_map st"
    "registry_nonempty st \<Longrightarrow> registry_nonempty st1"
  using assms
  by (auto simp: get_or_create_handle_def AsyncFuncHandle_init_def registry_nonempty_def
      split: option.splits if_splits sum.splits)

text \<open>
  C1. With a registry in which no name has an empty list, the loops of \<open>maybe_run\<close>
  compute the verdict of the admission walk of the specification. When the walk admits
  the invocation with preceding handles \<open>hs\<close>, \<open>maybe_run\<close> returns, and what it does is
  \<open>schedule()\<close> on the handles of \<open>hs\<close> in order, then on the current handle, then the
  return of the placeholder outputs of the current handle.
\<close>

theorem maybe_run_admission:
  assumes "ArgNone \<notin> set as"
    and "get_or_create_handle st g f name as fakes = Inr (cur, st1)"
    and "registry_nonempty st"
  shows "walk_agrees
           (admission_walk (segment_to_gms_map st1) (gm_to_handle_map st1) (graph_str g)
              (schedule_order st1) [])
           (walk_schedule st1 (graph_str g) 0 ([], True, False))
         \<and> (admission_walk (segment_to_gms_map st1) (gm_to_handle_map st1) (graph_str g)
               (schedule_order st1) [] = Admitted hs \<longrightarrow>
             maybe_run st g f name as fakes = run_in_order st1 (hs @ [cur]) cur
             \<and> (\<exists>r st'. maybe_run st g f name as fakes = Some (r, st')))"
proof (intro conjI impI)
  let ?a = "admission_walk (segment_to_gms_map st1) (gm_to_handle_map st1) (graph_str g)
              (schedule_order st1) []"
  have "registry_nonempty st1"
    using assms(2,3) by (rule get_or_create_handle_props)
  then show wa: "walk_agrees ?a (walk_schedule st1 (graph_str g) 0 ([], True, False))"
    by (rule walk_schedule_admission)
  assume "?a = Admitted hs"
  with wa have "walk_schedule st1 (graph_str g) 0 ([], True, False) = (hs, True, True)"
    by simp
  with assms(1,2) show eq: "maybe_run st g f name as fakes = run_in_order st1 (hs @ [cur]) cur"
    by (rule maybe_run_admitted)
  show "\<exists>r st'. maybe_run st g f name as fakes = Some (r, st')"
    unfolding eq by (rule run_in_order_total)
qed

theorem maybe_run_admission_witness:
  "ArgNone \<notin> set [ArgAsync 0 0]
   \<and> get_or_create_handle st_AB gm_B fn_B ''B_fwd'' [ArgAsync 0 0] [Some 0] = Inr (1, st_AB1)
   \<and> registry_nonempty st_AB
   \<and> admission_walk (segment_to_gms_map st_AB1) (gm_to_handle_map st_AB1) (graph_str gm_B)
        (schedule_order st_AB1) [] = Admitted [0]
   \<and> walk_schedule st_AB1 (graph_str gm_B) 0 ([], True, False) = ([0], True, True)
   \<and> maybe_run st_AB gm_B fn_B ''B_fwd'' [ArgAsync 0 0] [Some 0] = run_in_order st_AB1 [0, 1] 1
   \<and> map_option fst (run_in_order st_AB1 [0, 1] 1) = Some (Returned [ArgAsync 1 0])
   \<and> map_option (fn_calls \<circ> snd) (run_in_order st_AB1 [0, 1] 1) = Some [(0, [5]), (1, [7])]"
proof -
  have h1: "ArgNone \<notin> set [ArgAsync 0 0]" by simp
  have h2: "get_or_create_handle st_AB gm_B fn_B ''B_fwd'' [ArgAsync 0 0] [Some 0] = Inr (1, st_AB1)"
    by (simp add: ex_defs)
  have h3: "registry_nonempty st_AB"
    by (simp add: registry_nonempty_def ex_defs)
  have a: "admission_walk (segment_to_gms_map st_AB1) (gm_to_handle_map st_AB1) (graph_str gm_B)
        (schedule_order st_AB1) [] = Admitted [0]"
    by (simp add: ex_defs)
  have r: "map_option fst (run_in_order st_AB1 [0, 1] 1) = Some (Returned [ArgAsync 1 0])"
    "map_option (fn_calls \<circ> snd) (run_in_order st_AB1 [0, 1] 1) = Some [(0, [5]), (1, [7])]"
    by (simp_all add: run_in_order_def ex_defs run_defs)
  from maybe_run_admission [OF h1 h2 h3, of "[0]"] a h1 h2 h3 r show ?thesis by simp
qed

text \<open>
  C4. When the walk ends with \<open>all_preceding_graph_handles_are_created\<close> false,
  \<open>maybe_run\<close> returns the placeholder outputs of the current handle and adds the
  segment name to the delayed set. No callable is called, the execution record is
  unchanged, every handle that existed is unchanged and the handle that the call may
  have created is not scheduled.
\<close>

theorem maybe_run_deferred:
  assumes "ArgNone \<notin> set as"
    and "get_or_create_handle st g f name as fakes = Inr (cur, st1)"
    and "\<not> fst (snd (walk_schedule st1 (graph_str g) 0 ([], True, False)))"
  shows "\<exists>st'. maybe_run st g f name as fakes = Some (Returned (outs_async_of st' cur), st')
           \<and> recorded_delayed st' = insert name (recorded_delayed st)
           \<and> fn_calls st' = fn_calls st
           \<and> recorded_execution_order st' = recorded_execution_order st
           \<and> take (length (heap st)) (heap st') = heap st
           \<and> list_all (\<lambda>H. cuda_event H = None) (drop (length (heap st)) (heap st'))"
proof -
  let ?st' = "st1\<lparr>recorded_delayed := insert name (recorded_delayed st1)\<rparr>"
  obtain hs c r where w: "walk_schedule st1 (graph_str g) 0 ([], True, False) = (hs, c, r)"
    by (cases "walk_schedule st1 (graph_str g) 0 ([], True, False)")
  with assms(3) have "\<not> c" by simp
  with assms(1,2) w have "maybe_run st g f name as fakes = Some (Returned (outs_async_of ?st' cur), ?st')"
    by (simp add: maybe_run_def outs_async_of_def)
  with get_or_create_handle_props[OF assms(2)] show ?thesis by simp
qed

theorem maybe_run_deferred_witness:
  "ArgNone \<notin> set [ArgTensor 5]
   \<and> get_or_create_handle st_BA gm_A fn_A ''A_fwd'' [ArgTensor 5] [Some 0] = Inr (0, st_BA1)
   \<and> \<not> fst (snd (walk_schedule st_BA1 (graph_str gm_A) 0 ([], True, False)))
   \<and> maybe_run st_BA gm_A fn_A ''A_fwd'' [ArgTensor 5] [Some 0]
       = Some (Returned [ArgAsync 0 0], st_BA1\<lparr>recorded_delayed := {''A_fwd''}\<rparr>)"
proof -
  have h1: "ArgNone \<notin> set [ArgTensor 5]" by simp
  have h2: "get_or_create_handle st_BA gm_A fn_A ''A_fwd'' [ArgTensor 5] [Some 0] = Inr (0, st_BA1)"
    by (simp add: ex_defs)
  have h3: "\<not> fst (snd (walk_schedule st_BA1 (graph_str gm_A) 0 ([], True, False)))"
    by (simp add: walk_schedule.simps ex_defs)
  have "maybe_run st_BA gm_A fn_A ''A_fwd'' [ArgTensor 5] [Some 0]
       = Some (Returned [ArgAsync 0 0], st_BA1\<lparr>recorded_delayed := {''A_fwd''}\<rparr>)"
    using maybe_run_deferred [OF h1 h2 h3]
    by (simp add: maybe_run_def walk_schedule.simps ex_defs outs_async_of_def)
  with h1 h2 h3 show ?thesis by simp
qed

lemma walk_gms_all:
  "\<forall>g' \<in> set gms. graph_str g' \<noteq> cur \<and> hm (gm_id g') \<noteq> None \<Longrightarrow>
   walk_gms hm cur gms (acc, True, False)
     = (acc @ List.map_filter (\<lambda>g. hm (gm_id g)) gms, True, False)"
  by (induction gms arbitrary: acc) (auto simp: map_filter_simps)

lemma walk_schedule_all:
  assumes "\<forall>S \<in> set (schedule_order st). \<exists>gms. segment_to_gms_map st S = Some gms
      \<and> (\<forall>g' \<in> set gms. graph_str g' \<noteq> cur \<and> gm_to_handle_map st (gm_id g') \<noteq> None)"
  shows "length (schedule_order st) - i = n \<Longrightarrow>
   walk_schedule st cur i (acc, True, False) =
     (acc @ concat (map (\<lambda>S. case segment_to_gms_map st S of None \<Rightarrow> []
                  | Some gms \<Rightarrow> List.map_filter (\<lambda>g. gm_to_handle_map st (gm_id g)) gms)
               (drop i (schedule_order st))), True, False)"
proof (induction n arbitrary: i acc)
  case 0
  then show ?case by (simp add: walk_schedule.simps)
next
  case (Suc n)
  then have lt: "i < length (schedule_order st)" by simp
  then have dr: "drop i (schedule_order st) = schedule_order st ! i # drop (Suc i) (schedule_order st)"
    by (simp add: Cons_nth_drop_Suc)
  from lt assms obtain gms where gms: "segment_to_gms_map st (schedule_order st ! i) = Some gms"
    "\<forall>g' \<in> set gms. graph_str g' \<noteq> cur \<and> gm_to_handle_map st (gm_id g') \<noteq> None"
    by (meson nth_mem)
  from Suc.prems have "length (schedule_order st) - Suc i = n" by simp
  from Suc.IH[OF this] walk_gms_all[OF gms(2)] gms(1) lt show ?case
    unfolding dr by (simp add: walk_schedule.simps[of st cur i] Let_def)
qed

text \<open>
  C10, as stated, fails where it takes a current segment name that the schedule does
  not contain for a walk without match: the match is on the text of the graph, so an
  instance of a scheduled segment that is another capture of the same graph ends the
  walk, and the handle of that instance is not scheduled.
\<close>

theorem maybe_run_same_fingerprint_counterexample:
  "''C_fwd'' \<notin> set (schedule_order st_A)
   \<and> schedule_order st_A = [''A_fwd'']
   \<and> segment_to_gms_map st_A ''A_fwd'' = Some [gm_A]
   \<and> gm_to_handle_map st_A (gm_id gm_A) = Some 0
   \<and> map_option fst (maybe_run st_A gm_A_again fn_B ''C_fwd'' [ArgTensor 1] [Some 0])
       = Some (Returned [ArgAsync 1 0])
   \<and> map_option (fn_calls \<circ> snd) (maybe_run st_A gm_A_again fn_B ''C_fwd'' [ArgTensor 1] [Some 0])
       = Some [(1, [1])]
   \<and> map_option (map cuda_event \<circ> heap \<circ> snd)
        (maybe_run st_A gm_A_again fn_B ''C_fwd'' [ArgTensor 1] [Some 0])
       = Some [None, Some Recorded]"
  by (simp add: maybe_run_def walk_schedule.simps ex_defs run_defs)

text \<open>
  C10, amended. When no instance registered under a scheduled segment has the text of
  the current graph, and every scheduled segment has registry entries whose instances
  all have handles, the walk ends at the end of the schedule with every such handle
  accumulated, and \<open>maybe_run\<close> returns after \<open>schedule()\<close> on each of them, in schedule
  and registration order, and then on the current handle.
\<close>

theorem maybe_run_exhausted:
  assumes "ArgNone \<notin> set as"
    and "get_or_create_handle st g f name as fakes = Inr (cur, st1)"
    and "\<forall>S \<in> set (schedule_order st1). \<exists>gms. segment_to_gms_map st1 S = Some gms
           \<and> (\<forall>g' \<in> set gms. graph_str g' \<noteq> graph_str g
                 \<and> gm_to_handle_map st1 (gm_id g') \<noteq> None)"
  shows "walk_schedule st1 (graph_str g) 0 ([], True, False)
           = (handles_of_schedule st1, True, False)
         \<and> maybe_run st g f name as fakes
             = run_in_order st1 (handles_of_schedule st1 @ [cur]) cur
         \<and> (\<exists>r st'. maybe_run st g f name as fakes = Some (r, st'))"
proof (intro conjI)
  show w: "walk_schedule st1 (graph_str g) 0 ([], True, False)
      = (handles_of_schedule st1, True, False)"
    using walk_schedule_all[OF assms(3), of 0 _ "[]"] by (simp add: handles_of_schedule_def)
  with assms(1,2) show eq: "maybe_run st g f name as fakes
      = run_in_order st1 (handles_of_schedule st1 @ [cur]) cur"
    by (rule maybe_run_admitted)
  show "\<exists>r st'. maybe_run st g f name as fakes = Some (r, st')"
    unfolding eq by (rule run_in_order_total)
qed

theorem maybe_run_exhausted_witness:
  "ArgNone \<notin> set [ArgTensor 1]
   \<and> get_or_create_handle st_A gm_C fn_B ''C_fwd'' [ArgTensor 1] [Some 0] = Inr (1, st_A1)
   \<and> ''C_fwd'' \<notin> set (schedule_order st_A1)
   \<and> handles_of_schedule st_A1 = [0]
   \<and> maybe_run st_A gm_C fn_B ''C_fwd'' [ArgTensor 1] [Some 0] = run_in_order st_A1 [0, 1] 1
   \<and> map_option fst (run_in_order st_A1 [0, 1] 1) = Some (Returned [ArgAsync 1 0])
   \<and> map_option (fn_calls \<circ> snd) (run_in_order st_A1 [0, 1] 1) = Some [(0, [5]), (1, [1])]"
proof -
  have h1: "ArgNone \<notin> set [ArgTensor 1]" by simp
  have h2: "get_or_create_handle st_A gm_C fn_B ''C_fwd'' [ArgTensor 1] [Some 0] = Inr (1, st_A1)"
    by (simp add: ex_defs)
  have h3: "\<forall>S \<in> set (schedule_order st_A1). \<exists>gms. segment_to_gms_map st_A1 S = Some gms
           \<and> (\<forall>g' \<in> set gms. graph_str g' \<noteq> graph_str gm_C
                 \<and> gm_to_handle_map st_A1 (gm_id g') \<noteq> None)"
    by (simp add: ex_defs)
  have hs: "handles_of_schedule st_A1 = [0]" "''C_fwd'' \<notin> set (schedule_order st_A1)"
    by (simp_all add: handles_of_schedule_def map_filter_simps ex_defs)
  have r: "map_option fst (run_in_order st_A1 [0, 1] 1) = Some (Returned [ArgAsync 1 0])"
    "map_option (fn_calls \<circ> snd) (run_in_order st_A1 [0, 1] 1) = Some [(0, [5]), (1, [1])]"
    by (simp_all add: run_in_order_def ex_defs run_defs)
  from maybe_run_exhausted [OF h1 h2 h3] hs h1 h2 r show ?thesis by simp
qed

end
